theory Spec2Isabelle
  imports Complex_Main
begin

section \<open>Uplift portfolio profit engine (streamlit\_app/utils/calculations.py)\<close>

text \<open>
  The engine works on a pandas DataFrame.  A DataFrame is modelled as the list of its
  rows, in row order, and a column as the list of its values.  The functions of
  \<^verbatim>\<open>calculations.py\<close> are translated one by one, under their own names; the pandas and
  numpy operations they call (\<^verbatim>\<open>rank\<close>, \<^verbatim>\<open>qcut\<close>, \<^verbatim>\<open>mean\<close>, \<^verbatim>\<open>sort_values\<close>, \<^verbatim>\<open>head\<close>,
  \<^verbatim>\<open>argmax\<close>) are modelled by what they compute on the columns the engine gives them.
  A call returns \<open>Inr\<close> of its value, or \<open>Inl\<close> of the exception it raises.

  A Python float is a real number, an infinity or NaN.  Rounding is modelled where an
  integer is read off a float: the product \<^verbatim>\<open>pool_size * target_pct\<close>, whose integer part
  is the count of targeted rows, and the quotient \<^verbatim>\<open>pct_int / 100\<close> that the profit curve
  passes on as the fraction are rounded to binary64 as the machine does.  The values that
  are only reported (rates, cost, revenue, profit) are computed with exact arithmetic:
  their rounding is not modelled.  Scores, email cost and profit per conversion are finite
  numbers; the targeting fraction is any float.
\<close>

subsection \<open>Numbers\<close>

datatype pyfloat = Num real | PInf | NInf | NaN

datatype error = ValueError | OverflowError

text \<open>
  Subtraction and multiplication of floats, exact on numbers, with the IEEE 754 rules
  for infinities and NaN.
\<close>

fun fsub :: "pyfloat \<Rightarrow> pyfloat \<Rightarrow> pyfloat" where
  "fsub (Num a) (Num b) = Num (a - b)"
| "fsub NaN _ = NaN"
| "fsub _ NaN = NaN"
| "fsub PInf PInf = NaN"
| "fsub NInf NInf = NaN"
| "fsub PInf _ = PInf"
| "fsub NInf _ = NInf"
| "fsub _ PInf = NInf"
| "fsub _ NInf = PInf"

fun fsgn :: "pyfloat \<Rightarrow> int" where
  "fsgn (Num a) = (if a < 0 then - 1 else if a = 0 then 0 else 1)"
| "fsgn PInf = 1"
| "fsgn NInf = - 1"
| "fsgn NaN = 0"

fun fmul :: "pyfloat \<Rightarrow> pyfloat \<Rightarrow> pyfloat" where
  "fmul (Num a) (Num b) = Num (a * b)"
| "fmul NaN _ = NaN"
| "fmul _ NaN = NaN"
| "fmul x y = (if fsgn x * fsgn y = 0 then NaN else if 0 < fsgn x * fsgn y then PInf else NInf)"

text \<open>The comparisons \<^verbatim>\<open><\<close> and \<^verbatim>\<open>==\<close> of floats: every comparison with NaN is false.\<close>

fun fless :: "pyfloat \<Rightarrow> pyfloat \<Rightarrow> bool" where
  "fless (Num a) (Num b) = (a < b)"
| "fless NaN _ = False"
| "fless _ NaN = False"
| "fless PInf _ = False"
| "fless _ PInf = True"
| "fless NInf NInf = False"
| "fless NInf _ = True"
| "fless _ NInf = False"

fun feq :: "pyfloat \<Rightarrow> pyfloat \<Rightarrow> bool" where
  "feq NaN _ = False"
| "feq _ NaN = False"
| "feq x y = (x = y)"

text \<open>
  Rounding to binary64 (53 significant bits, exponents from -1022 to 1023), to the
  nearest value and to the even one of two nearest: \<open>binary64 x\<close> is the rounded value
  when the exponent is not bounded above, and \<open>to_float x\<close> the float that an operation
  with the exact result \<open>x\<close> returns, an infinity when the rounded value is out of range.
\<close>

definition round_half_even :: "real \<Rightarrow> int" where
  "round_half_even y =
     (let f = \<lfloor>y\<rfloor>; d = y - of_int f
      in if d < 1 / 2 then f else if 1 / 2 < d then f + 1 else if even f then f else f + 1)"

definition binary64 :: "real \<Rightarrow> real" where
  "binary64 x =
     (if x = 0 then 0
      else let e = max \<lfloor>log 2 \<bar>x\<bar>\<rfloor> (- 1022);
               ulp = 2 powi (e - 52)
           in ulp * of_int (round_half_even (x / ulp)))"

definition to_float :: "real \<Rightarrow> pyfloat" where
  "to_float x =
     (let y = binary64 x
      in if 2 ^ 1024 \<le> y then PInf else if y \<le> - (2 ^ 1024) then NInf else Num y)"

text \<open>
  \<^verbatim>\<open>int(x)\<close> on a float truncates towards zero; it raises ValueError on NaN and
  OverflowError on an infinity.
\<close>

fun py_int :: "pyfloat \<Rightarrow> error + int" where
  "py_int (Num x) = Inr (if 0 \<le> x then \<lfloor>x\<rfloor> else \<lceil>x\<rceil>)"
| "py_int NaN = Inl ValueError"
| "py_int PInf = Inl OverflowError"
| "py_int NInf = Inl OverflowError"

text \<open>
  \<^verbatim>\<open>n * x\<close> for an int \<open>n\<close> and a float \<open>x\<close>: the int is converted to the nearest float
  (OverflowError when it is out of range), and the product is rounded.
\<close>

definition float_of_int :: "int \<Rightarrow> error + pyfloat" where
  "float_of_int n = (case to_float (of_int n) of Num x \<Rightarrow> Inr (Num x) | _ \<Rightarrow> Inl OverflowError)"

definition py_mul :: "int \<Rightarrow> pyfloat \<Rightarrow> error + pyfloat" where
  "py_mul n x =
     (case float_of_int n of
        Inl e \<Rightarrow> Inl e
      | Inr m \<Rightarrow> Inr (case fmul m x of Num z \<Rightarrow> to_float z | w \<Rightarrow> w))"

text \<open>\<^verbatim>\<open>Series.mean()\<close> of an integer column; the mean of no rows is NaN.\<close>

definition mean :: "int list \<Rightarrow> pyfloat" where
  "mean ys = (if ys = [] then NaN else Num (of_int (sum_list ys) / of_nat (length ys)))"

subsection \<open>Rows\<close>

text \<open>A row of the CSV file, and a row of the frame after the decile column is added.\<close>

record csv_row =
  csv_uplift_score :: real
  csv_treatment :: int
  csv_y_true :: int

record row =
  uplift_score :: real
  treatment :: int
  y_true :: int
  decile :: int

subsection \<open>Decile assignment\<close>

text \<open>
  \<^verbatim>\<open>Series.rank(method='first')\<close>: ranks 1..n in ascending order of the value, equal
  values ranked in the order they appear.
\<close>

definition rank_first :: "real list \<Rightarrow> nat list" where
  "rank_first xs =
     map (\<lambda>i. 1 + length (filter (\<lambda>y. y < xs ! i) xs)
                 + length (filter (\<lambda>y. y = xs ! i) (take i xs)))
         [0..<length xs]"

text \<open>
  \<^verbatim>\<open>Series.quantile(q)\<close> with linear interpolation, on the sorted values \<open>vs\<close>:
  the value at the fractional position \<open>q * (n - 1)\<close>.
\<close>

definition quantile :: "real list \<Rightarrow> real \<Rightarrow> real" where
  "quantile vs q =
     (let pos = q * of_nat (length vs - 1);
          lo = nat \<lfloor>pos\<rfloor>;
          hi = min (lo + 1) (length vs - 1);
          frac = pos - of_nat lo
      in vs ! lo + (vs ! hi - vs ! lo) * frac)"

text \<open>
  \<^verbatim>\<open>pd.qcut(x, q, labels=False)\<close>: the bin edges are the quantiles \<open>0, 1/q, ..., 1\<close>
  of \<open>x\<close>; edges that are not unique are refused with ValueError (of no values the
  edges are all NaN, hence not unique); a value is put in the right-closed bin
  it falls in (\<^verbatim>\<open>searchsorted\<close> from the left), the lowest edge included in the first
  bin; bins are numbered from 0.  Every value lies between the first and the last edge,
  which are the minimum and the maximum of \<open>x\<close>, so no value is left without a bin.
\<close>

definition qcut_bins :: "real list \<Rightarrow> nat \<Rightarrow> real list" where
  "qcut_bins x q = map (\<lambda>k. quantile (sort x) (of_nat k / of_nat q)) [0..<Suc q]"

definition searchsorted_left :: "real list \<Rightarrow> real \<Rightarrow> nat" where
  "searchsorted_left bins v = length (filter (\<lambda>b. b < v) bins)"

definition qcut :: "real list \<Rightarrow> nat \<Rightarrow> error + int list" where
  "qcut x q =
     (if x = [] then Inl ValueError
      else let bins = qcut_bins x q in
        if \<not> distinct bins \<and> length bins \<noteq> 2 then Inl ValueError
        else Inr (map (\<lambda>v. int (if v = bins ! 0 then 1 else searchsorted_left bins v) - 1) x))"

text \<open>
  \<^verbatim>\<open>load_and_prepare_data\<close>, from the parsed rows of the file on (\<^verbatim>\<open>pd.read_csv\<close> is
  not modelled): the decile of a row is the qcut bin of its rank, plus 1.
\<close>

definition load_and_prepare_data :: "csv_row list \<Rightarrow> error + row list" where
  "load_and_prepare_data df =
     (case qcut (map of_nat (rank_first (map csv_uplift_score df))) 10 of
        Inl e \<Rightarrow> Inl e
      | Inr labels \<Rightarrow>
          Inr (map (\<lambda>(r, l). \<lparr>uplift_score = csv_uplift_score r, treatment = csv_treatment r,
                               y_true = csv_y_true r, decile = l + 1\<rparr>)
                   (zip df labels)))"

subsection \<open>Per-decile statistics\<close>

text \<open>\<^verbatim>\<open>range(start, stop)\<close> and \<^verbatim>\<open>range(start, stop, step)\<close> for a positive step.\<close>

definition py_range :: "int \<Rightarrow> int \<Rightarrow> int \<Rightarrow> int list" where
  "py_range start stop step =
     map (\<lambda>k. start + int k * step) [0..<nat ((stop - start + step - 1) div step)]"

record decile_stats_row =
  stats_decile :: int
  n_customers :: int
  n_treated :: int
  n_control :: int
  treatment_rate :: pyfloat
  control_rate :: pyfloat
  observed_lift :: pyfloat
  uplift_rate :: pyfloat

text \<open>The body of the loop of \<^verbatim>\<open>calculate_decile_stats\<close>, for one decile.\<close>

definition decile_stats_of :: "row list \<Rightarrow> int \<Rightarrow> decile_stats_row" where
  "decile_stats_of df d =
     (let subset = filter (\<lambda>r. decile r = d) df;
          treated = filter (\<lambda>r. treatment r = 1) subset;
          control = filter (\<lambda>r. treatment r = 0) subset;
          n_total = int (length subset);
          n_treated = int (length treated);
          n_control = int (length control);
          (treat_rate, ctrl_rate, uplift_rate) =
            (if n_treated > 0 \<and> n_control > 0
             then (let treat_rate = mean (map y_true treated);
                       ctrl_rate = mean (map y_true control)
                   in (treat_rate, ctrl_rate, fsub treat_rate ctrl_rate))
             else (Num 0, Num 0, Num 0))
      in \<lparr>stats_decile = d, n_customers = n_total, n_treated = n_treated,
          n_control = n_control,
          treatment_rate = fmul treat_rate (Num 100),
          control_rate = fmul ctrl_rate (Num 100),
          observed_lift = fmul uplift_rate (Num 100),
          uplift_rate = uplift_rate\<rparr>)"

definition calculate_decile_stats :: "row list \<Rightarrow> error + decile_stats_row list" where
  "calculate_decile_stats df = Inr (map (decile_stats_of df) (py_range 1 11 1))"

subsection \<open>Portfolio profit\<close>

record profit_result =
  profit :: pyfloat
  revenue :: pyfloat
  cost :: pyfloat
  incremental_conversions :: pyfloat
  emails_sent :: int

record portfolio_result = profit_result +
  pool_size :: int

text \<open>
  \<^verbatim>\<open>sort_values('uplift_score', ascending=False)\<close>.  The order pandas leaves rows of
  equal score in is not fixed by its default sorting algorithm; the model keeps them in
  their original order.
\<close>

definition sort_values_desc :: "row list \<Rightarrow> row list" where
  "sort_values_desc pool = sort_key (\<lambda>r. - uplift_score r) pool"

text \<open>
  \<^verbatim>\<open>DataFrame.head(n)\<close>: the first \<open>n\<close> rows; all but the last \<open>-n\<close> rows when \<open>n\<close> is
  negative.
\<close>

definition head :: "int \<Rightarrow> 'a list \<Rightarrow> 'a list" where
  "head n xs = (if 0 \<le> n then take (nat n) xs else take (length xs - nat (- n)) xs)"

definition calculate_portfolio_profit ::
  "row list \<Rightarrow> int list \<Rightarrow> pyfloat \<Rightarrow> real \<Rightarrow> real \<Rightarrow> error + portfolio_result" where
  "calculate_portfolio_profit df selected_deciles target_pct email_cost profit_per_conversion =
     (let pool = filter (\<lambda>r. decile r \<in> set selected_deciles) df;
          pool_size = int (length pool)
      in if pool_size = 0
         then Inr \<lparr>profit = Num 0, revenue = Num 0, cost = Num 0,
                   incremental_conversions = Num 0, emails_sent = 0, pool_size = 0\<rparr>
         else
           let pool = sort_values_desc pool in
           case py_mul pool_size target_pct of
             Inl e \<Rightarrow> Inl e
           | Inr product \<Rightarrow>
              (case py_int product of
                 Inl e \<Rightarrow> Inl e
               | Inr n_target \<Rightarrow>
                   let n_target = (if n_target = 0 then 1 else n_target);
                       targeted = head n_target pool;
                       treated = filter (\<lambda>r. treatment r = 1) targeted;
                       control = filter (\<lambda>r. treatment r = 0) targeted;
                       n_treated = int (length treated);
                       n_control = int (length control);
                       incr_conv =
                         (if n_treated > 0 \<and> n_control > 0
                          then (let treat_rate = mean (map y_true treated);
                                    ctrl_rate = mean (map y_true control);
                                    uplift_rate = fsub treat_rate ctrl_rate
                                in fmul uplift_rate (Num (of_int n_target)))
                          else Num 0);
                       cost = fmul (Num (of_int n_target)) (Num email_cost);
                       revenue = fmul incr_conv (Num profit_per_conversion);
                       profit = fsub revenue cost
                   in Inr \<lparr>profit = profit, revenue = revenue, cost = cost,
                            incremental_conversions = incr_conv, emails_sent = n_target,
                            pool_size = pool_size\<rparr>))"

subsection \<open>Spray and pray\<close>

definition calculate_spray_and_pray :: "row list \<Rightarrow> real \<Rightarrow> real \<Rightarrow> error + profit_result" where
  "calculate_spray_and_pray df email_cost profit_per_conversion =
     (let n_total = int (length df);
          treated = filter (\<lambda>r. treatment r = 1) df;
          control = filter (\<lambda>r. treatment r = 0) df;
          treat_rate = mean (map y_true treated);
          ctrl_rate = mean (map y_true control);
          uplift_rate = fsub treat_rate ctrl_rate;
          incr_conv = fmul uplift_rate (Num (of_int n_total));
          cost = fmul (Num (of_int n_total)) (Num email_cost);
          revenue = fmul incr_conv (Num profit_per_conversion);
          profit = fsub revenue cost
      in Inr \<lparr>profit = profit, revenue = revenue, cost = cost,
               incremental_conversions = incr_conv, emails_sent = n_total\<rparr>)"

subsection \<open>Profit curve\<close>

text \<open>
  \<^verbatim>\<open>np.argmax\<close>: the index of the first maximum, a NaN counting as the maximum;
  ValueError on an empty sequence.
\<close>

definition beats :: "pyfloat \<Rightarrow> pyfloat \<Rightarrow> bool" where
  "beats x best = (best \<noteq> NaN \<and> (x = NaN \<or> fless best x))"

fun argmax_from :: "pyfloat list \<Rightarrow> nat \<Rightarrow> nat \<Rightarrow> pyfloat \<Rightarrow> nat" where
  "argmax_from [] i best_i best = best_i"
| "argmax_from (x # xs) i best_i best =
     (if beats x best then argmax_from xs (Suc i) i x
      else argmax_from xs (Suc i) best_i best)"

definition argmax :: "pyfloat list \<Rightarrow> error + nat" where
  "argmax xs = (case xs of [] \<Rightarrow> Inl ValueError | x # xs' \<Rightarrow> Inr (argmax_from xs' 1 0 x))"

record profit_curve =
  percentages :: "int list"
  profits :: "pyfloat list"
  optimal_pct :: int
  optimal_profit :: pyfloat

text \<open>
  The loop of \<^verbatim>\<open>calculate_profit_curve\<close> over the remaining percentages; \<open>pcts\<close> and
  \<open>profs\<close> are the lists \<^verbatim>\<open>percentages\<close> and \<^verbatim>\<open>profits\<close> built so far.  The quotient
  \<^verbatim>\<open>pct_int / 100\<close> of two ints is the float nearest to it.  The parameter \<open>n_points\<close> of
  the function is never read.
\<close>

fun profit_curve_loop ::
  "row list \<Rightarrow> int list \<Rightarrow> real \<Rightarrow> real \<Rightarrow> int list \<Rightarrow> int list \<Rightarrow> pyfloat list
     \<Rightarrow> error + int list \<times> pyfloat list" where
  "profit_curve_loop df selected_deciles email_cost profit_per_conversion [] pcts profs =
     Inr (pcts, profs)"
| "profit_curve_loop df selected_deciles email_cost profit_per_conversion (pct_int # rest)
       pcts profs =
     (let pct = to_float (of_int pct_int / 100) in
      case calculate_portfolio_profit df selected_deciles pct email_cost profit_per_conversion of
        Inl e \<Rightarrow> Inl e
      | Inr result \<Rightarrow>
          profit_curve_loop df selected_deciles email_cost profit_per_conversion rest
            (pcts @ [pct_int]) (profs @ [profit result]))"

definition calculate_profit_curve ::
  "row list \<Rightarrow> int list \<Rightarrow> real \<Rightarrow> real \<Rightarrow> int \<Rightarrow> error + profit_curve" where
  "calculate_profit_curve df selected_deciles email_cost profit_per_conversion n_points =
     (case profit_curve_loop df selected_deciles email_cost profit_per_conversion
             (py_range 5 105 5) [] [] of
        Inl e \<Rightarrow> Inl e
      | Inr (pcts, profs) \<Rightarrow>
          (case argmax profs of
             Inl e \<Rightarrow> Inl e
           | Inr optimal_idx \<Rightarrow>
               Inr \<lparr>percentages = pcts, profits = profs,
                    optimal_pct = pcts ! optimal_idx,
                    optimal_profit = profs ! optimal_idx\<rparr>))"

subsection \<open>Per-decile profit\<close>

text \<open>
  \<^verbatim>\<open>calculate_decile_profits\<close> adds four columns to the statistics.  The columns
  \<^verbatim>\<open>cost\<close>, \<^verbatim>\<open>revenue\<close> and \<^verbatim>\<open>profit\<close> are named \<open>decile_cost\<close>, \<open>decile_revenue\<close> and
  \<open>decile_profit\<close> here, and the column \<^verbatim>\<open>decile\<close> of the statistics \<open>stats_decile\<close>.
\<close>

record decile_profit_row = decile_stats_row +
  incremental_conv :: pyfloat
  decile_cost :: pyfloat
  decile_revenue :: pyfloat
  decile_profit :: pyfloat

definition decile_profit_of :: "real \<Rightarrow> real \<Rightarrow> decile_stats_row \<Rightarrow> decile_profit_row" where
  "decile_profit_of email_cost profit_per_conversion s =
     (let incremental_conv = fmul (uplift_rate s) (Num (of_int (n_customers s)));
          cost = fmul (Num (of_int (n_customers s))) (Num email_cost);
          revenue = fmul incremental_conv (Num profit_per_conversion);
          profit = fsub revenue cost
      in decile_stats_row.extend s
           \<lparr>incremental_conv = incremental_conv, decile_cost = cost,
            decile_revenue = revenue, decile_profit = profit\<rparr>)"

definition calculate_decile_profits ::
  "decile_stats_row list \<Rightarrow> real \<Rightarrow> real \<Rightarrow> error + decile_profit_row list" where
  "calculate_decile_profits decile_stats email_cost profit_per_conversion =
     Inr (map (decile_profit_of email_cost profit_per_conversion) decile_stats)"

subsection \<open>Auxiliary definitions for the proofs\<close>

text \<open>
  The decile that the rank-then-qcut step gives the record of rank \<open>r\<close> among \<open>n\<close>
  records, in closed form (\<open>label_of_rank\<close> and \<open>qcut_ranks\<close> below prove that this is
  what \<open>qcut\<close> computes on ranks).
\<close>

definition decile_of_rank :: "nat \<Rightarrow> nat \<Rightarrow> nat" where
  "decile_of_rank n r = (10 * (r - 1) - 1) div (n - 1) + 1"

text \<open>
  The count of targeted records as the specification words it: \<open>round(pool_size * f)\<close>,
  with a floor of 1.  It is used only to compare the code with.  (\<open>round\<close> rounds a half
  up and Python's \<^verbatim>\<open>round\<close> to the even neighbour; both send 7.5 to 8.)
\<close>

definition spec_targeted_count :: "int \<Rightarrow> real \<Rightarrow> int" where
  "spec_targeted_count psize f = (let n = round (of_int psize * f) in if n = 0 then 1 else n)"

text \<open>
  The float nearest to 7/10 (\<open>binary64_seven_tenths\<close> below), the value of the Python
  literal \<^verbatim>\<open>0.7\<close>.
\<close>

definition seven_tenths :: real where
  "seven_tenths = 3152519739159347 / 4503599627370496"

subsection \<open>Sample frames\<close>

definition mk_row :: "real \<Rightarrow> int \<Rightarrow> int \<Rightarrow> int \<Rightarrow> row" where
  "mk_row s t y d = \<lparr>uplift_score = s, treatment = t, y_true = y, decile = d\<rparr>"

text \<open>Ten rows, one per decile, treatment alternating.\<close>

definition sample_df :: "row list" where
  "sample_df = [mk_row 1 1 0 1, mk_row 2 0 0 2, mk_row 3 1 1 3, mk_row 4 0 0 4, mk_row 5 1 0 5,
                mk_row 6 0 1 6, mk_row 7 1 1 7, mk_row 8 0 0 8, mk_row 9 1 1 9, mk_row 10 0 0 10]"

text \<open>Ten rows that were all treated: the control arm is empty.\<close>

definition treated_only_df :: "row list" where
  "treated_only_df = [mk_row 1 1 0 1, mk_row 2 1 0 2, mk_row 3 1 1 3, mk_row 4 1 0 4, mk_row 5 1 0 5,
                mk_row 6 1 1 6, mk_row 7 1 1 7, mk_row 8 1 0 8, mk_row 9 1 1 9, mk_row 10 1 0 10]"

definition all_deciles :: "int list" where
  "all_deciles = [1, 2, 3, 4, 5, 6, 7, 8, 9, 10]"

definition mk_csv :: "real \<Rightarrow> int \<Rightarrow> int \<Rightarrow> csv_row" where
  "mk_csv s t y = \<lparr>csv_uplift_score = s, csv_treatment = t, csv_y_true = y\<rparr>"

text \<open>Five rows of a CSV file, two of them with the same score.\<close>

definition five_rows_csv :: "csv_row list" where
  "five_rows_csv = [mk_csv (3/10) 1 1, mk_csv (1/10) 0 0, mk_csv (2/10) 1 0, mk_csv (1/10) 0 1, mk_csv (5/10) 1 1]"

text \<open>Twelve rows of a CSV file, eleven of them with the same score.\<close>

definition tied_csv :: "csv_row list" where
  "tied_csv = [mk_csv (1/2) 1 1, mk_csv (1/2) 0 0, mk_csv (1/2) 1 0, mk_csv (1/2) 0 1, mk_csv (1/2) 1 1,
               mk_csv (1/2) 0 0, mk_csv (1/2) 1 0, mk_csv (1/2) 0 1, mk_csv (1/2) 1 1, mk_csv (1/2) 0 0,
               mk_csv (1/2) 1 1, mk_csv (1/4) 0 0]"

section \<open>Properties\<close>

subsection \<open>Evaluation\<close>

lemmas eval_defs = calculate_portfolio_profit_def sample_df_def all_deciles_def mk_row_def
  sort_values_desc_def head_def mean_def Let_def

lemma py_range_curve: "py_range 5 105 5 = [5, 10, 15, 20, 25, 30, 35, 40, 45, 50, 55, 60, 65, 70, 75, 80, 85, 90, 95, 100]"
  by (simp add: py_range_def upt_rec)

lemma py_range_deciles: "py_range 1 11 1 = [1, 2, 3, 4, 5, 6, 7, 8, 9, 10]"
  by (simp add: py_range_def upt_rec)

subsection \<open>Rounding to binary64\<close>

lemma round_half_even_of_int: "round_half_even (of_int m) = m"
  by (simp add: round_half_even_def)

lemma round_half_even_le:
  assumes "y \<le> of_int m"
  shows "round_half_even y \<le> m"
proof (cases "y = of_int m")
  case True
  then show ?thesis by (simp add: round_half_even_of_int)
next
  case False
  then have "y < of_int m" using assms by simp
  then have "\<lfloor>y\<rfloor> < m" by (simp add: floor_less_iff)
  then have "\<lfloor>y\<rfloor> + 1 \<le> m" by simp
  then show ?thesis unfolding round_half_even_def Let_def by auto
qed

lemma round_half_even_ge:
  assumes "of_int m \<le> y"
  shows "m \<le> round_half_even y"
proof -
  have "m \<le> \<lfloor>y\<rfloor>" using assms by (simp add: le_floor_iff)
  then show ?thesis unfolding round_half_even_def Let_def by auto
qed

lemma powr_powi: "2 powr real_of_int k = (2::real) powi k"
  and powr_powi_Suc: "2 powr (real_of_int k + 1) = (2::real) powi (k + 1)"
  using powr_real_of_int' [of 2 k] powr_real_of_int' [of 2 "k + 1"] by simp_all

lemma exponent_bounds:
  assumes "x \<noteq> 0"
  shows "2 powi \<lfloor>log 2 \<bar>x\<bar>\<rfloor> \<le> \<bar>x\<bar>" and "\<bar>x\<bar> < 2 powi (\<lfloor>log 2 \<bar>x\<bar>\<rfloor> + 1)"
proof -
  have pos: "0 < \<bar>x\<bar>" using assms by simp
  have "2 powr real_of_int \<lfloor>log 2 \<bar>x\<bar>\<rfloor> \<le> \<bar>x\<bar> \<and> \<bar>x\<bar> < 2 powr (real_of_int \<lfloor>log 2 \<bar>x\<bar>\<rfloor> + 1)"
    using floor_log_eq_powr_iff [OF pos, of 2 "\<lfloor>log 2 \<bar>x\<bar>\<rfloor>"] by simp
  then show "2 powi \<lfloor>log 2 \<bar>x\<bar>\<rfloor> \<le> \<bar>x\<bar>" and "\<bar>x\<bar> < 2 powi (\<lfloor>log 2 \<bar>x\<bar>\<rfloor> + 1)"
    unfolding powr_powi powr_powi_Suc by simp_all
qed

lemma exponent_eq:
  assumes "2 powi e \<le> \<bar>x\<bar>" "\<bar>x\<bar> < 2 powi (e + 1)"
  shows "\<lfloor>log 2 \<bar>x\<bar>\<rfloor> = e"
proof -
  have "0 < (2::real) powi e" by simp
  then have pos: "0 < \<bar>x\<bar>" using assms(1) by linarith
  have "2 powr real_of_int e \<le> \<bar>x\<bar> \<and> \<bar>x\<bar> < 2 powr (real_of_int e + 1)"
    unfolding powr_powi powr_powi_Suc using assms by simp
  then show ?thesis using floor_log_eq_powr_iff [OF pos, of 2 e] by simp
qed

lemma binary64_eval:
  assumes "2 powi e \<le> \<bar>x\<bar>" "\<bar>x\<bar> < 2 powi (e + 1)" "- 1022 \<le> e"
  shows "binary64 x = 2 powi (e - 52) * of_int (round_half_even (x / 2 powi (e - 52)))"
proof -
  have "0 < (2::real) powi e" by simp
  then have "0 < \<bar>x\<bar>" using assms(1) by linarith
  then have "x \<noteq> 0" by simp
  moreover have "max \<lfloor>log 2 \<bar>x\<bar>\<rfloor> (- 1022) = e"
    using exponent_eq [OF assms(1,2)] assms(3) by simp
  ultimately show ?thesis by (simp add: binary64_def Let_def)
qed

lemma binary64_exact:
  assumes "\<bar>m\<bar> < 2 ^ 53" "- 1074 \<le> k"
  shows "binary64 (of_int m * 2 powi k) = of_int m * 2 powi k"
proof (cases "m = 0")
  case True
  then show ?thesis by (simp add: binary64_def)
next
  case False
  define x :: real where "x = of_int m * 2 powi k"
  define e where "e = max \<lfloor>log 2 \<bar>x\<bar>\<rfloor> (- 1022)"
  have x0: "x \<noteq> 0" using False by (simp add: x_def)
  have "\<bar>x\<bar> = of_int \<bar>m\<bar> * 2 powi k" by (simp add: x_def abs_mult)
  also have "\<dots> < 2 ^ 53 * 2 powi k"
    using assms(1) by (intro mult_strict_right_mono) (simp_all add: of_int_less_numeral_power_cancel_iff)
  also have "\<dots> = 2 powi (k + 53)"
    by (simp add: power_int_add)
  finally have "\<bar>x\<bar> < 2 powi (k + 53)" .
  moreover have "2 powi \<lfloor>log 2 \<bar>x\<bar>\<rfloor> \<le> \<bar>x\<bar>" using exponent_bounds(1) [OF x0] .
  ultimately have "(2::real) powi \<lfloor>log 2 \<bar>x\<bar>\<rfloor> < 2 powi (k + 53)" by linarith
  then have "\<lfloor>log 2 \<bar>x\<bar>\<rfloor> < k + 53"
    by (metis linorder_not_less one_le_numeral power_int_increasing)
  then have e: "e \<le> k + 52" using assms(2) by (simp add: e_def)
  define j where "j = nat (k + 52 - e)"
  have j: "k - (e - 52) = int j" using e by (simp add: j_def)
  have "x / 2 powi (e - 52) = of_int m * (2 powi k / 2 powi (e - 52))"
    by (simp add: x_def)
  also have "2 powi k / 2 powi (e - 52) = (2::real) powi (k - (e - 52))"
    by (simp add: power_int_diff)
  also have "\<dots> = 2 ^ j" unfolding j by simp
  finally have q: "x / 2 powi (e - 52) = of_int (m * 2 ^ j)" by simp
  have "binary64 x = 2 powi (e - 52) * of_int (round_half_even (x / 2 powi (e - 52)))"
    using x0 by (simp add: binary64_def Let_def e_def)
  also have "\<dots> = 2 powi (e - 52) * (x / 2 powi (e - 52))"
    unfolding q round_half_even_of_int ..
  also have "\<dots> = x" by simp
  finally show ?thesis unfolding x_def .
qed

lemma binary64_of_int:
  assumes "\<bar>m\<bar> < 2 ^ 53"
  shows "binary64 (of_int m) = of_int m"
  using binary64_exact [OF assms, of 0] by simp

lemma binary64_nonneg:
  assumes "0 \<le> x"
  shows "0 \<le> binary64 x"
proof (cases "x = 0")
  case True
  then show ?thesis by (simp add: binary64_def)
next
  case False
  define u :: real where "u = 2 powi (max \<lfloor>log 2 \<bar>x\<bar>\<rfloor> (- 1022) - 52)"
  have u: "0 < u" by (simp add: u_def)
  have "of_int 0 \<le> x / u" using assms u by simp
  then have "0 \<le> round_half_even (x / u)" by (rule round_half_even_ge)
  then show ?thesis using False u by (simp add: binary64_def Let_def u_def [symmetric])
qed

lemma binary64_le_int:
  assumes "0 \<le> x" "x \<le> of_int n" "n < 2 ^ 53"
  shows "binary64 x \<le> of_int n"
proof (cases "x = 0")
  case True
  then show ?thesis using assms by (simp add: binary64_def)
next
  case False
  define e where "e = max \<lfloor>log 2 \<bar>x\<bar>\<rfloor> (- 1022)"
  define u :: real where "u = 2 powi (e - 52)"
  have u: "0 < u" by (simp add: u_def)
  have "real_of_int n < 2 ^ 53" using assms(3) by (simp add: of_int_less_numeral_power_cancel_iff)
  then have "\<bar>x\<bar> < 2 ^ 53" using assms(1,2) by linarith
  then have "\<bar>x\<bar> < 2 powi 53" by simp
  moreover have "2 powi \<lfloor>log 2 \<bar>x\<bar>\<rfloor> \<le> \<bar>x\<bar>" using exponent_bounds(1) [OF False] .
  ultimately have "(2::real) powi \<lfloor>log 2 \<bar>x\<bar>\<rfloor> < 2 powi 53" by linarith
  then have "\<lfloor>log 2 \<bar>x\<bar>\<rfloor> < 53"
    by (metis linorder_not_less one_le_numeral power_int_increasing)
  then have e: "e \<le> 52" by (simp add: e_def)
  define j where "j = nat (52 - e)"
  have "1 / u = 2 powi (- (e - 52))"
    unfolding u_def power_int_minus by (simp add: inverse_eq_divide)
  also have "- (e - 52) = int j" using e by (simp add: j_def)
  finally have iu: "1 / u = 2 ^ j" by simp
  have "of_int n / u = of_int n * (1 / u)" by simp
  also have "\<dots> = of_int (n * 2 ^ j)" unfolding iu by simp
  finally have nu: "of_int n / u = of_int (n * 2 ^ j)" .
  have "x / u \<le> of_int n / u" using assms(2) u by (simp add: divide_right_mono)
  then have "round_half_even (x / u) \<le> n * 2 ^ j" unfolding nu by (rule round_half_even_le)
  then have "real_of_int (round_half_even (x / u)) \<le> of_int (n * 2 ^ j)" by linarith
  then have "u * of_int (round_half_even (x / u)) \<le> u * (of_int n / u)"
    unfolding nu using u by (intro mult_left_mono) simp_all
  also have "\<dots> = of_int n" using u by simp
  finally show ?thesis using False by (simp add: binary64_def Let_def e_def [symmetric] u_def [symmetric])
qed

lemma binary64_le_pow2:
  assumes "0 \<le> x" "x \<le> 2 ^ k"
  shows "binary64 x \<le> 2 ^ k"
proof (cases "x = 0")
  case True
  then show ?thesis by (simp add: binary64_def)
next
  case False
  define e where "e = max \<lfloor>log 2 \<bar>x\<bar>\<rfloor> (- 1022)"
  define u :: real where "u = 2 powi (e - 52)"
  have u: "0 < u" by (simp add: u_def)
  have "\<bar>x\<bar> \<le> 2 powi (int k)" using assms by simp
  moreover have "2 powi \<lfloor>log 2 \<bar>x\<bar>\<rfloor> \<le> \<bar>x\<bar>" using exponent_bounds(1) [OF False] .
  ultimately have "(2::real) powi \<lfloor>log 2 \<bar>x\<bar>\<rfloor> \<le> 2 powi (int k)" by linarith
  then have "\<lfloor>log 2 \<bar>x\<bar>\<rfloor> \<le> int k"
    by (metis linorder_not_less one_less_numeral_iff power_int_strict_increasing semiring_norm(76))
  then have e: "e \<le> int k" by (simp add: e_def)
  define j where "j = nat (int k + 52 - e)"
  have j: "int k - (e - 52) = int j" using e by (simp add: j_def)
  have "2 ^ k / u = 2 powi (int k) / 2 powi (e - 52)" by (simp add: u_def)
  also have "\<dots> = (2::real) powi (int k - (e - 52))" by (simp add: power_int_diff)
  also have "\<dots> = 2 ^ j" unfolding j by simp
  finally have nu: "2 ^ k / u = of_int (2 ^ j)" by simp
  have "x / u \<le> 2 ^ k / u" using assms(2) u by (simp add: divide_right_mono)
  then have "round_half_even (x / u) \<le> 2 ^ j" unfolding nu by (rule round_half_even_le)
  then have "real_of_int (round_half_even (x / u)) \<le> of_int (2 ^ j)" by linarith
  then have "u * of_int (round_half_even (x / u)) \<le> u * (2 ^ k / u)"
    unfolding nu using u by (intro mult_left_mono) simp_all
  also have "\<dots> = 2 ^ k" using u by simp
  finally show ?thesis using False by (simp add: binary64_def Let_def e_def [symmetric] u_def [symmetric])
qed

lemma to_float_Num:
  assumes "\<bar>binary64 x\<bar> < 2 ^ 1024"
  shows "to_float x = Num (binary64 x)"
  using assms by (simp add: to_float_def Let_def abs_less_iff)

lemma float_of_int_exact:
  assumes "\<bar>n\<bar> < 2 ^ 53"
  shows "float_of_int n = Inr (Num (of_int n))"
proof -
  have "\<bar>real_of_int n\<bar> < 2 ^ 53"
    using assms by (metis of_int_abs of_int_less_numeral_power_cancel_iff)
  also have "(2::real) ^ 53 < 2 ^ 1024" by simp
  finally have "\<bar>binary64 (of_int n)\<bar> < 2 ^ 1024" unfolding binary64_of_int [OF assms] .
  then show ?thesis by (simp add: float_of_int_def to_float_Num binary64_of_int [OF assms])
qed

lemma py_mul_Num:
  assumes "\<bar>n\<bar> < 2 ^ 53"
  shows "py_mul n (Num f) = Inr (to_float (of_int n * f))"
  by (simp add: py_mul_def float_of_int_exact [OF assms])

lemma py_mul_NaN:
  assumes "\<bar>n\<bar> < 2 ^ 53"
  shows "py_mul n NaN = Inr NaN"
  by (simp add: py_mul_def float_of_int_exact [OF assms])

lemma py_mul_Inf:
  assumes "0 < n" "n < 2 ^ 53"
  shows "py_mul n PInf = Inr PInf" and "py_mul n NInf = Inr NInf"
  using assms by (simp_all add: py_mul_def float_of_int_exact)

lemma py_mul_fraction:
  assumes "0 \<le> n" "n < 2 ^ 53" "0 \<le> f" "f \<le> 1"
  shows "py_mul n (Num f) = Inr (Num (binary64 (of_int n * f)))"
    and "0 \<le> binary64 (of_int n * f)" and "binary64 (of_int n * f) \<le> of_int n"
proof -
  have x0: "0 \<le> of_int n * f" using assms(1,3) by simp
  have xn: "of_int n * f \<le> of_int n" using assms(1,4) by (simp add: mult_left_le)
  show lo: "0 \<le> binary64 (of_int n * f)" using x0 by (rule binary64_nonneg)
  show hi: "binary64 (of_int n * f) \<le> of_int n" using x0 xn assms(2) by (rule binary64_le_int)
  have "real_of_int n < 2 ^ 53" using assms(2) by (simp add: of_int_less_numeral_power_cancel_iff)
  also have "(2::real) ^ 53 < 2 ^ 1024" by simp
  finally have "\<bar>binary64 (of_int n * f)\<bar> < 2 ^ 1024" using lo hi by linarith
  then show "py_mul n (Num f) = Inr (Num (binary64 (of_int n * f)))"
    using assms(1,2) by (simp add: py_mul_Num to_float_Num)
qed

lemma py_mul_fraction_wide:
  assumes "0 \<le> n" "n < 2 ^ 63" "0 \<le> f" "f \<le> 1"
  shows "\<exists>x. py_mul n (Num f) = Inr (Num x)"
proof -
  define m where "m = binary64 (of_int n)"
  have big: "(2::real) ^ 63 < 2 ^ 1024" by simp
  have n0: "0 \<le> real_of_int n" using assms(1) by simp
  have "real_of_int n < 2 ^ 63" using assms(2) by (simp add: of_int_less_numeral_power_cancel_iff)
  then have nk: "real_of_int n \<le> 2 ^ 63" by simp
  have m0: "0 \<le> m" unfolding m_def using n0 by (rule binary64_nonneg)
  have mk: "m \<le> 2 ^ 63" unfolding m_def using n0 nk by (rule binary64_le_pow2)
  have "\<bar>binary64 (of_int n)\<bar> < 2 ^ 1024" using m0 mk big unfolding m_def by linarith
  then have conv: "float_of_int n = Inr (Num m)"
    by (simp add: float_of_int_def to_float_Num m_def)
  have p0: "0 \<le> m * f" using m0 assms(3) by simp
  have "m * f \<le> m" using m0 assms(4) by (simp add: mult_left_le)
  then have pk: "m * f \<le> 2 ^ 63" using mk by linarith
  have "0 \<le> binary64 (m * f)" using p0 by (rule binary64_nonneg)
  moreover have "binary64 (m * f) \<le> 2 ^ 63" using p0 pk by (rule binary64_le_pow2)
  ultimately have "\<bar>binary64 (m * f)\<bar> < 2 ^ 1024" using big by linarith
  then have "to_float (m * f) = Num (binary64 (m * f))" by (rule to_float_Num)
  then have "py_mul n (Num f) = Inr (Num (binary64 (m * f)))"
    by (simp add: py_mul_def conv)
  then show ?thesis by (rule exI)
qed

lemma binary64_seven_tenths: "binary64 (7 / 10) = 3152519739159347 / 4503599627370496"
proof -
  have "binary64 (7 / 10) = 2 powi (- 1 - 52) * of_int (round_half_even ((7 / 10) / 2 powi (- 1 - 52)))"
    by (rule binary64_eval) simp_all
  also have "round_half_even ((7 / 10) / 2 powi (- 1 - 52)) = 6305039478318694"
    by (simp add: round_half_even_def Let_def)
  finally show ?thesis by simp
qed

lemma binary64_ten_times: "binary64 (10 * (3152519739159347 / 4503599627370496)) = 7"
proof -
  have "binary64 (10 * (3152519739159347 / 4503599627370496))
      = 2 powi (2 - 52) * of_int (round_half_even ((10 * (3152519739159347 / 4503599627370496)) / 2 powi (2 - 52)))"
    by (rule binary64_eval) simp_all
  also have "round_half_even ((10 * (3152519739159347 / 4503599627370496)) / 2 powi (2 - 52)) = 7881299347898368"
    by (simp add: round_half_even_def Let_def)
  finally show ?thesis by simp
qed

lemma binary64_fifteen_halves: "binary64 (15 / 2) = 15 / 2"
  using binary64_exact [of 15 "- 1"] by simp

lemma py_mul_ten:
  "py_mul 10 (Num 1) = Inr (Num 10)"
  "py_mul 10 (Num 2) = Inr (Num 20)"
  "py_mul 10 (Num (3 / 4)) = Inr (Num (15 / 2))"
  "py_mul 10 (Num seven_tenths) = Inr (Num 7)"
  "py_mul 10 NaN = Inr NaN"
  "py_mul 10 (Num (2 ^ 1023)) = Inr PInf"
proof -
  have n: "\<bar>10::int\<bar> < 2 ^ 53" by simp
  have b: "binary64 10 = 10" "binary64 20 = 20"
    using binary64_of_int [of 10] binary64_of_int [of 20] by simp_all
  show "py_mul 10 (Num 1) = Inr (Num 10)" "py_mul 10 (Num 2) = Inr (Num 20)"
    using py_mul_Num [OF n, of 1] py_mul_Num [OF n, of 2] by (simp_all add: to_float_def b)
  show "py_mul 10 (Num (3 / 4)) = Inr (Num (15 / 2))"
    using py_mul_Num [OF n, of "3 / 4"] by (simp add: to_float_def binary64_fifteen_halves)
  show "py_mul 10 (Num seven_tenths) = Inr (Num 7)"
    using py_mul_Num [OF n, of seven_tenths] binary64_ten_times
    by (simp add: to_float_def seven_tenths_def)
  show "py_mul 10 NaN = Inr NaN" by (rule py_mul_NaN [OF n])
  have "binary64 (of_int 10 * 2 powi 1023) = of_int 10 * 2 powi 1023"
    by (rule binary64_exact) simp_all
  then have "binary64 (10 * 2 ^ 1023) = 10 * 2 ^ 1023" by simp
  then show "py_mul 10 (Num (2 ^ 1023)) = Inr PInf"
    using py_mul_Num [OF n, of "2 ^ 1023"] by (simp add: to_float_def)
qed

lemma to_float_one: "to_float (of_int 100 / 100) = Num 1"
proof -
  have "binary64 (of_int 1) = of_int 1" by (rule binary64_of_int) simp
  then show ?thesis by (simp add: to_float_def)
qed

lemma binary64_ninety_times:
  "binary64 (90 * (3152519739159347 / 4503599627370496)) = 8866461766385663 / 140737488355328"
proof -
  have "binary64 (90 * (3152519739159347 / 4503599627370496))
      = 2 powi (5 - 52) * of_int (round_half_even ((90 * (3152519739159347 / 4503599627370496)) / 2 powi (5 - 52)))"
    by (rule binary64_eval) simp_all
  also have "round_half_even ((90 * (3152519739159347 / 4503599627370496)) / 2 powi (5 - 52)) = 8866461766385663"
    by (simp add: round_half_even_def Let_def)
  finally show ?thesis by simp
qed

text \<open>
  A pool of 90 at the float 0.7: the float product is the float just below 63 and the
  count is 62, where the exact product of 90 and 7/10 is 63.
\<close>

lemma count_ninety:
  "py_mul 90 (Num seven_tenths) = Inr (Num (8866461766385663 / 140737488355328))"
  "py_int (Num (8866461766385663 / 140737488355328)) = Inr 62"
proof -
  have n: "\<bar>90::int\<bar> < 2 ^ 53" by simp
  show "py_mul 90 (Num seven_tenths) = Inr (Num (8866461766385663 / 140737488355328))"
    using py_mul_Num [OF n, of seven_tenths] binary64_ninety_times
    by (simp add: to_float_def seven_tenths_def)
  show "py_int (Num (8866461766385663 / 140737488355328)) = Inr 62"
    by simp
qed

subsection \<open>Ranks are a permutation of 1..n\<close>

lemma length_filter_take_card:
  "i \<le> length xs \<Longrightarrow> length (filter P (take i xs)) = card {k. k < i \<and> P (xs ! k)}"
proof -
  assume i: "i \<le> length xs"
  have "length (filter P (take i xs)) = card {k. k < length (take i xs) \<and> P (take i xs ! k)}"
    by (rule length_filter_conv_card)
  also have "{k. k < length (take i xs) \<and> P (take i xs ! k)} = {k. k < i \<and> P (xs ! k)}"
    using i by auto
  finally show ?thesis .
qed

lemma rank_first_nth:
  assumes "i < length xs"
  shows "rank_first xs ! i =
     1 + card {k. k < length xs \<and> (xs ! k < xs ! i \<or> (xs ! k = xs ! i \<and> k < i))}"
proof -
  let ?A = "{k. k < length xs \<and> xs ! k < xs ! i}"
  let ?B = "{k. k < i \<and> xs ! k = xs ! i}"
  have "rank_first xs ! i = 1 + length (filter (\<lambda>y. y < xs ! i) xs)
                 + length (filter (\<lambda>y. y = xs ! i) (take i xs))"
    using assms by (simp add: rank_first_def)
  also have "length (filter (\<lambda>y. y < xs ! i) xs) = card ?A"
    by (rule length_filter_conv_card)
  also have "length (filter (\<lambda>y. y = xs ! i) (take i xs)) = card ?B"
    using assms by (intro length_filter_take_card) simp
  also have "1 + card ?A + card ?B = 1 + card (?A \<union> ?B)"
  proof -
    have "finite ?A" "finite ?B" "?A \<inter> ?B = {}" by auto
    then show ?thesis by (simp add: card_Un_disjoint)
  qed
  also have "?A \<union> ?B = {k. k < length xs \<and> (xs ! k < xs ! i \<or> (xs ! k = xs ! i \<and> k < i))}"
    using assms by auto
  finally show ?thesis .
qed

lemma length_rank_first: "length (rank_first xs) = length xs"
  by (simp add: rank_first_def)

lemma rank_first_bounds:
  assumes "i < length xs"
  shows "1 \<le> rank_first xs ! i" and "rank_first xs ! i \<le> length xs"
proof -
  let ?L = "{k. k < length xs \<and> (xs ! k < xs ! i \<or> (xs ! k = xs ! i \<and> k < i))}"
  show "1 \<le> rank_first xs ! i" using rank_first_nth [OF assms] by simp
  have "?L \<subseteq> {0..<length xs} - {i}" by auto
  then have "card ?L \<le> card ({0..<length xs} - {i})" by (intro card_mono) auto
  also have "\<dots> = length xs - 1" using assms by simp
  finally show "rank_first xs ! i \<le> length xs" using rank_first_nth [OF assms] assms by simp
qed

lemma rank_first_less:
  assumes "i < length xs" "j < length xs"
    and "xs ! i < xs ! j \<or> (xs ! i = xs ! j \<and> i < j)"
  shows "rank_first xs ! i < rank_first xs ! j"
proof -
  let ?L = "\<lambda>i. {k. k < length xs \<and> (xs ! k < xs ! i \<or> (xs ! k = xs ! i \<and> k < i))}"
  have "?L i \<subseteq> ?L j" using assms(3) by auto
  moreover have "i \<in> ?L j" "i \<notin> ?L i" using assms by auto
  ultimately have "?L i \<subset> ?L j" by blast
  moreover have "finite (?L j)" by simp
  ultimately have "card (?L i) < card (?L j)" by (rule psubset_card_mono [rotated])
  then show ?thesis using rank_first_nth assms(1,2) by simp
qed

lemma distinct_rank_first: "distinct (rank_first xs)"
proof -
  have "rank_first xs ! i \<noteq> rank_first xs ! j"
    if "i < length xs" "j < length xs" "i \<noteq> j" for i j
  proof -
    have "(xs ! i < xs ! j \<or> (xs ! i = xs ! j \<and> i < j)) \<or> (xs ! j < xs ! i \<or> (xs ! j = xs ! i \<and> j < i))"
      using that(3) by auto
    then show ?thesis
      using rank_first_less [OF that(1,2)] rank_first_less [OF that(2,1)] by auto
  qed
  then show ?thesis by (simp add: distinct_conv_nth length_rank_first)
qed

lemma set_rank_first: "set (rank_first xs) = {1..length xs}"
proof -
  have sub: "set (rank_first xs) \<subseteq> {1..length xs}"
    using rank_first_bounds by (auto simp: set_conv_nth length_rank_first)
  have "card (set (rank_first xs)) = length xs"
    using distinct_rank_first [of xs] by (simp add: distinct_card length_rank_first)
  then have "card (set (rank_first xs)) = card {1..length xs}" by simp
  with sub show ?thesis by (intro card_subset_eq) auto
qed

lemma sort_ranks:
  "sort (map real (rank_first xs)) = map real [1..<Suc (length xs)]"
proof (rule sorted_distinct_set_unique)
  show "sorted (sort (map real (rank_first xs)))" by simp
  show "distinct (sort (map real (rank_first xs)))"
    by (simp add: distinct_map distinct_rank_first)
  show "sorted (map real [1..<Suc (length xs)])"
    by (rule sorted_map_mono [OF sorted_upt]) (simp add: mono_on_def)
  show "distinct (map real [1..<Suc (length xs)])"
    by (simp add: distinct_map)
  show "set (sort (map real (rank_first xs))) = set (map real [1..<Suc (length xs)])"
    by (simp add: set_rank_first atLeastLessThanSuc_atLeastAtMost del: upt_Suc)
qed

subsection \<open>The bin edges and labels of qcut on ranks\<close>

lemma quantile_ranks:
  assumes "0 < n" "k \<le> 10"
  shows "quantile (map real [1..<Suc n]) (real k / real 10) = 1 + real k * real (n - 1) / 10"
proof -
  define m where "m = n - 1"
  define pos where "pos = real k / real 10 * real m"
  define lo where "lo = nat \<lfloor>pos\<rfloor>"
  have n: "n = Suc m" using assms(1) by (simp add: m_def)
  have pos0: "0 \<le> pos" by (simp add: pos_def)
  have "real k / real 10 \<le> 1" using assms(2) by simp
  then have "real k / real 10 * real m \<le> 1 * real m"
    by (intro mult_right_mono) simp_all
  then have posm: "pos \<le> real m" unfolding pos_def by simp
  have lo_le: "real lo \<le> pos" using pos0 by (simp add: lo_def)
  have lo_m: "lo \<le> m"
  proof -
    have "\<lfloor>pos\<rfloor> \<le> int m" using posm by (simp add: floor_le_iff)
    then show ?thesis by (simp add: lo_def)
  qed
  define vs where "vs = map real [1..<Suc n]"
  have nth: "vs ! j = real (Suc j)" if "j \<le> m" for j
    using that unfolding n vs_def by (simp del: upt_Suc)
  have len: "length vs - 1 = m" by (simp add: n vs_def del: upt_Suc)
  have q: "quantile vs (real k / real 10) =
      vs ! lo + (vs ! min (lo + 1) m - vs ! lo) * (pos - real lo)"
    unfolding quantile_def len Let_def pos_def [symmetric] lo_def [symmetric] by simp
  have "quantile vs (real k / real 10) = 1 + pos"
  proof (cases "lo < m")
    case True
    then have "min (lo + 1) m = lo + 1" by simp
    then show ?thesis using True unfolding q by (simp add: nth)
  next
    case False
    then have lo: "lo = m" using lo_m by simp
    then have "pos = real m" using lo_le posm by simp
    then show ?thesis unfolding q lo by (simp add: nth)
  qed
  then show ?thesis by (simp add: pos_def m_def vs_def)
qed

lemma qcut_bins_ranks:
  assumes "xs \<noteq> []"
  shows "qcut_bins (map real (rank_first xs)) 10 =
     map (\<lambda>k. 1 + real k * real (length xs - 1) / 10) [0..<11]"
proof -
  have "quantile (sort (map real (rank_first xs))) (real k / real 10)
      = 1 + real k * real (length xs - 1) / 10" if "k \<in> set [0..<Suc 10]" for k
    unfolding sort_ranks using that assms by (intro quantile_ranks) auto
  then show ?thesis unfolding qcut_bins_def
    by (intro map_cong) (simp_all del: upt_Suc)
qed

lemma distinct_bins:
  assumes "2 \<le> n"
  shows "distinct (map (\<lambda>k. 1 + real k * real (n - 1) / 10) [0..<11])"
proof -
  have "inj_on (\<lambda>k. 1 + real k * real (n - 1) / 10) (set [0..<11])"
    using assms by (intro inj_onI) simp
  then show ?thesis by (simp add: distinct_map del: upt_Suc)
qed

lemma searchsorted_bins:
  assumes "2 \<le> n" "1 \<le> r"
  shows "searchsorted_left (map (\<lambda>k. 1 + real k * real (n - 1) / 10) [0..<11]) (real r)
     = card {k. k \<le> 10 \<and> k * (n - 1) < 10 * (r - 1)}"
proof -
  have "searchsorted_left (map (\<lambda>k. 1 + real k * real (n - 1) / 10) [0..<11]) (real r)
     = length (filter (\<lambda>k. 1 + real k * real (n - 1) / 10 < real r) [0..<11])"
    unfolding searchsorted_left_def filter_map length_map comp_def ..
  also have "\<dots> = card {k. k < 11 \<and> 1 + real k * real (n - 1) / 10 < real r}"
  proof -
    have "{i. i < length [0..<11::nat] \<and> 1 + real ([0..<11] ! i) * real (n - 1) / 10 < real r}
        = {k. k < 11 \<and> 1 + real k * real (n - 1) / 10 < real r}"
      by (rule Collect_cong) (auto simp del: upt_Suc)
    then show ?thesis unfolding length_filter_conv_card by simp
  qed
  also have "{k. k < 11 \<and> 1 + real k * real (n - 1) / 10 < real r} = {k. k \<le> 10 \<and> k * (n - 1) < 10 * (r - 1)}"
  proof -
    have "(1 + real k * real (n - 1) / 10 < real r) = (k * (n - 1) < 10 * (r - 1))" for k
    proof -
      have "(1 + real k * real (n - 1) / 10 < real r) = (real k * real (n - 1) < 10 * (real r - 1))"
        by (simp add: field_simps)
      also have "\<dots> = (real (k * (n - 1)) < real (10 * (r - 1)))"
        using assms(2) by (simp add: of_nat_diff)
      also have "\<dots> = (k * (n - 1) < 10 * (r - 1))"
        by (rule of_nat_less_iff)
      finally show ?thesis .
    qed
    then show ?thesis by auto
  qed
  finally show ?thesis .
qed

lemma label_of_rank:
  assumes "2 \<le> n" "1 \<le> r" "r \<le> n"
  shows "int (if real r = map (\<lambda>k. 1 + real k * real (n - 1) / 10) [0..<11] ! 0 then 1
              else searchsorted_left (map (\<lambda>k. 1 + real k * real (n - 1) / 10) [0..<11]) (real r)) - 1 + 1
         = int (decile_of_rank n r)"
proof (cases "r = 1")
  case True
  have "map (\<lambda>k. 1 + real k * real (n - 1) / 10) [0..<11] ! 0 = 1"
    by (subst nth_map) (simp_all del: upt_Suc)
  then show ?thesis using True by (simp add: decile_of_rank_def)
next
  case False
  define m where "m = n - 1"
  define j where "j = r - 1"
  have m: "0 < m" and j: "0 < j" "j \<le> m" using assms False by (auto simp: m_def j_def)
  have b0: "map (\<lambda>k. 1 + real k * real (n - 1) / 10) [0..<11] ! 0 = 1"
    by (subst nth_map) (simp_all del: upt_Suc)
  have ne: "real r \<noteq> 1" using False by simp
  have "{k. k \<le> 10 \<and> k * m < 10 * j} = {0..(10 * j - 1) div m}"
  proof (rule set_eqI)
    fix k
    have "(k * m < 10 * j) = (k * m \<le> 10 * j - 1)" using j by auto
    also have "\<dots> = (k \<le> (10 * j - 1) div m)"
      using m by (simp add: less_eq_div_iff_mult_less_eq)
    finally have eq: "(k * m < 10 * j) = (k \<le> (10 * j - 1) div m)" .
    have "(10 * j - 1) div m \<le> (10 * m) div m"
      using j by (intro div_le_mono) simp
    then have "(10 * j - 1) div m \<le> 10" using m by simp
    then show "(k \<in> {k. k \<le> 10 \<and> k * m < 10 * j}) = (k \<in> {0..(10 * j - 1) div m})"
      using eq by auto
  qed
  then have "card {k. k \<le> 10 \<and> k * m < 10 * j} = (10 * j - 1) div m + 1" by simp
  then show ?thesis
    using searchsorted_bins [OF assms(1,2)] ne unfolding b0 m_def j_def decile_of_rank_def by simp
qed

lemma qcut_ranks:
  assumes "2 \<le> length xs"
  shows "qcut (map real (rank_first xs)) 10 =
     Inr (map (\<lambda>r. int (decile_of_rank (length xs) r) - 1) (rank_first xs))"
proof -
  define n where "n = length xs"
  define bins where "bins = map (\<lambda>k. 1 + real k * real (n - 1) / 10) [0..<11]"
  have ne: "xs \<noteq> []" using assms by auto
  then have ne': "rank_first xs \<noteq> []" using length_rank_first [of xs] by auto
  have bins: "qcut_bins (map real (rank_first xs)) 10 = bins"
    unfolding bins_def n_def by (rule qcut_bins_ranks [OF ne])
  have d: "distinct bins" unfolding bins_def using assms by (intro distinct_bins) (simp add: n_def)
  have "map (\<lambda>v. int (if v = bins ! 0 then 1 else searchsorted_left bins v) - 1) (map real (rank_first xs))
      = map (\<lambda>r. int (decile_of_rank n r) - 1) (rank_first xs)"
    unfolding map_map
  proof (rule map_cong [OF refl])
    fix r assume "r \<in> set (rank_first xs)"
    then have r: "1 \<le> r" "r \<le> n" unfolding set_rank_first n_def by auto
    have "2 \<le> n" using assms by (simp add: n_def)
    from label_of_rank [OF this r]
    show "((\<lambda>v. int (if v = bins ! 0 then 1 else searchsorted_left bins v) - 1) \<circ> real) r
        = int (decile_of_rank n r) - 1"
      unfolding bins_def comp_def by linarith
  qed
  then show ?thesis
    unfolding qcut_def bins Let_def n_def [symmetric] using ne' d by simp
qed

lemma qcut_too_few:
  assumes "length xs < 2"
  shows "qcut (map real (rank_first xs)) 10 = Inl ValueError"
proof (cases "xs = []")
  case True
  then show ?thesis by (simp add: qcut_def rank_first_def)
next
  case False
  then have n: "length xs = 1" using assms by (cases xs) auto
  have "qcut_bins (map real (rank_first xs)) 10 = map (\<lambda>k. 1 + real k * real (length xs - 1) / 10) [0..<11]"
    by (rule qcut_bins_ranks [OF False])
  then have "qcut_bins (map real (rank_first xs)) 10 = [1, 1, 1, 1, 1, 1, 1, 1, 1, 1, 1]"
    unfolding n by (simp add: upt_rec)
  then show ?thesis by (simp add: qcut_def)
qed

lemma decile_of_rank_range:
  assumes "2 \<le> n" "1 \<le> r" "r \<le> n"
  shows "1 \<le> decile_of_rank n r" and "decile_of_rank n r \<le> 10"
proof -
  show "1 \<le> decile_of_rank n r" by (simp add: decile_of_rank_def)
  have "10 * (r - 1) - 1 < 10 * (n - 1)" using assms by linarith
  then have "(10 * (r - 1) - 1) div (n - 1) < 10"
    using assms(1) by (simp add: div_less_iff_less_mult)
  then show "decile_of_rank n r \<le> 10" by (simp add: decile_of_rank_def)
qed

lemma load_rows:
  assumes "2 \<le> length df"
  shows "\<exists>rows. load_and_prepare_data df = Inr rows
     \<and> length rows = length df
     \<and> map decile rows = map (\<lambda>r. int (decile_of_rank (length df) r)) (rank_first (map csv_uplift_score df))
     \<and> map uplift_score rows = map csv_uplift_score df
     \<and> map treatment rows = map csv_treatment df
     \<and> map y_true rows = map csv_y_true df"
proof -
  define ranks where "ranks = rank_first (map csv_uplift_score df)"
  define labels where "labels = map (\<lambda>r. int (decile_of_rank (length df) r) - 1) ranks"
  define rows where "rows = map (\<lambda>(r, l). \<lparr>uplift_score = csv_uplift_score r, treatment = csv_treatment r,
                               y_true = csv_y_true r, decile = l + 1\<rparr>) (zip df labels)"
  have len: "length labels = length df"
    by (simp add: labels_def ranks_def length_rank_first)
  have q: "qcut (map real (rank_first (map csv_uplift_score df))) 10 = Inr labels"
    using qcut_ranks [of "map csv_uplift_score df"] assms by (simp add: labels_def ranks_def)
  have ret: "load_and_prepare_data df = Inr rows"
    unfolding load_and_prepare_data_def q rows_def by simp
  have lr: "length rows = length df" by (simp add: rows_def len)
  have "map decile rows = map (\<lambda>l. l + 1) labels"
    by (rule nth_equalityI) (simp_all add: rows_def len)
  then have dec: "map decile rows = map (\<lambda>r. int (decile_of_rank (length df) r)) ranks"
    by (simp add: labels_def)
  have "map uplift_score rows = map csv_uplift_score df" "map treatment rows = map csv_treatment df"
    "map y_true rows = map csv_y_true df"
    by (rule nth_equalityI; simp add: rows_def len)+
  with ret lr dec show ?thesis unfolding ranks_def by blast
qed

subsection \<open>Sizes of the decile groups\<close>

lemma nat_div_eq_iff:
  fixes a m e :: nat
  assumes "0 < m"
  shows "(a div m = e) = (e * m \<le> a \<and> a < Suc e * m)"
proof
  assume "a div m = e"
  then show "e * m \<le> a \<and> a < Suc e * m"
    using assms dividend_less_div_times [of m a] div_times_less_eq_dividend [of a m] by auto
next
  assume "e * m \<le> a \<and> a < Suc e * m"
  then show "a div m = e" by (intro div_nat_eqI) (simp_all add: mult.commute)
qed

lemma decile_of_rank_eq_iff:
  assumes "2 \<le> n" "1 \<le> r" "r \<le> n" "1 \<le> d"
  shows "(decile_of_rank n r = d) =
         (if r = 1 then d = 1 else ((d - 1) * (n - 1)) div 10 < r - 1 \<and> r - 1 \<le> (d * (n - 1)) div 10)"
proof (cases "r = 1")
  case True
  then show ?thesis by (auto simp add: decile_of_rank_def)
next
  case False
  define m where "m = n - 1"
  define j where "j = r - 1"
  define e where "e = d - 1"
  have m: "0 < m" and j: "0 < j" and d: "d = Suc e" using assms False by (auto simp: m_def j_def e_def)
  have "(decile_of_rank n r = d) = ((10 * j - 1) div m = e)"
    unfolding decile_of_rank_def m_def j_def d by simp
  also have "\<dots> = (e * m \<le> 10 * j - 1 \<and> 10 * j - 1 < Suc e * m)"
    using m by (rule nat_div_eq_iff)
  also have "\<dots> = (e * m < 10 * j \<and> 10 * j \<le> Suc e * m)"
    using j by auto
  also have "\<dots> = ((e * m) div 10 < j \<and> j \<le> (Suc e * m) div 10)"
    by (auto simp: less_eq_div_iff_mult_less_eq div_less_iff_less_mult mult.commute)
  finally show ?thesis using False unfolding m_def j_def d by simp
qed

lemma group_card:
  assumes "2 \<le> n" "1 \<le> d" "d \<le> 10"
  shows "card {r. 1 \<le> r \<and> r \<le> n \<and> decile_of_rank n r = d} =
     (if d = 1 then (n - 1) div 10 + 1 else (d * (n - 1)) div 10 - ((d - 1) * (n - 1)) div 10)"
proof -
  define m where "m = n - 1"
  define lo where "lo = ((d - 1) * m) div 10"
  define hi where "hi = (d * m) div 10"
  have n: "n = Suc m" using assms(1) by (simp add: m_def)
  have "d * m \<le> 10 * m" using assms(3) by simp
  then have "hi \<le> (10 * m) div 10" unfolding hi_def by (rule div_le_mono)
  then have hi: "hi \<le> m" by simp
  have iff: "(decile_of_rank n r = d) = (if r = 1 then d = 1 else lo < r - 1 \<and> r - 1 \<le> hi)"
    if "1 \<le> r" "r \<le> n" for r
    using decile_of_rank_eq_iff [OF assms(1) that assms(2)] unfolding lo_def hi_def m_def .
  show ?thesis
  proof (cases "d = 1")
    case True
    have "{r. 1 \<le> r \<and> r \<le> n \<and> decile_of_rank n r = d} = {1..Suc hi}"
    proof (rule set_eqI)
      fix r
      show "(r \<in> {r. 1 \<le> r \<and> r \<le> n \<and> decile_of_rank n r = d}) = (r \<in> {1..Suc hi})"
      proof (cases "1 \<le> r \<and> r \<le> n")
        case False
        then show ?thesis using hi n by auto
      next
        case rn: True
        then show ?thesis using iff [of r] True hi n by (auto simp: lo_def)
      qed
    qed
    then show ?thesis using True by (simp add: hi_def m_def)
  next
    case False
    have "{r. 1 \<le> r \<and> r \<le> n \<and> decile_of_rank n r = d} = {lo + 2..Suc hi}"
    proof (rule set_eqI)
      fix r
      show "(r \<in> {r. 1 \<le> r \<and> r \<le> n \<and> decile_of_rank n r = d}) = (r \<in> {lo + 2..Suc hi})"
      proof (cases "1 \<le> r \<and> r \<le> n")
        case rn: False
        then show ?thesis using hi n by auto
      next
        case rn: True
        then show ?thesis using iff [of r] False hi n by auto
      qed
    qed
    then show ?thesis using False by (simp add: hi_def lo_def m_def)
  qed
qed

lemma div10_add:
  fixes a b :: nat
  shows "a div 10 + b div 10 \<le> (a + b) div 10" and "(a + b) div 10 \<le> a div 10 + b div 10 + 1"
  by linarith+

lemma group_card_bounds:
  assumes "2 \<le> n" "1 \<le> d" "d \<le> 10"
  shows "(n - 1) div 10 \<le> card {r. 1 \<le> r \<and> r \<le> n \<and> decile_of_rank n r = d}"
    and "card {r. 1 \<le> r \<and> r \<le> n \<and> decile_of_rank n r = d} \<le> (n - 1) div 10 + 1"
proof -
  define m where "m = n - 1"
  define a where "a = (d - 1) * m"
  have dm: "d * m = a + m" using assms(2) unfolding a_def
    by (cases d) simp_all
  have c: "card {r. 1 \<le> r \<and> r \<le> n \<and> decile_of_rank n r = d} =
     (if d = 1 then m div 10 + 1 else (a + m) div 10 - a div 10)"
    unfolding group_card [OF assms] m_def [symmetric] dm a_def [symmetric] ..
  have 1: "m div 10 \<le> (a + m) div 10 - a div 10" using div10_add(1) [of a m] by linarith
  have 2: "(a + m) div 10 - a div 10 \<le> m div 10 + 1" using div10_add(2) [of a m] by linarith
  show "(n - 1) div 10 \<le> card {r. 1 \<le> r \<and> r \<le> n \<and> decile_of_rank n r = d}"
    unfolding c m_def [symmetric] using 1 by simp
  show "card {r. 1 \<le> r \<and> r \<le> n \<and> decile_of_rank n r = d} \<le> (n - 1) div 10 + 1"
    unfolding c m_def [symmetric] using 2 by simp
qed

lemma group_card_pos:
  assumes "10 \<le> n" "1 \<le> d" "d \<le> 10"
  shows "0 < card {r. 1 \<le> r \<and> r \<le> n \<and> decile_of_rank n r = d}"
proof (cases "11 \<le> n")
  case True
  then have "1 \<le> (n - 1) div 10" by linarith
  moreover have "2 \<le> n" using assms(1) by simp
  ultimately show ?thesis using group_card_bounds(1) [of n d] assms(2,3) by linarith
next
  case False
  then have n: "n = 10" using assms(1) by simp
  have c: "card {r. 1 \<le> r \<and> r \<le> n \<and> decile_of_rank n r = d} =
     (if d = 1 then 1 else (d * 9) div 10 - ((d - 1) * 9) div 10)"
    using group_card [of n d] assms(2,3) unfolding n by simp
  have "((d - 1) * 9) div 10 < (d * 9) div 10" if "d \<noteq> 1"
  proof -
    have "d \<in> {2, 3, 4, 5, 6, 7, 8, 9, 10}" using that assms(2,3) by simp presburger
    then show ?thesis by auto
  qed
  then show ?thesis unfolding c by simp
qed

lemma group_length:
  assumes "2 \<le> length df" "load_and_prepare_data df = Inr rows" "1 \<le> d"
  shows "length (filter (\<lambda>r. decile r = d) rows) =
     card {r. 1 \<le> r \<and> r \<le> length df \<and> decile_of_rank (length df) r = nat d}"
proof -
  define ranks where "ranks = rank_first (map csv_uplift_score df)"
  have dec: "map decile rows = map (\<lambda>r. int (decile_of_rank (length df) r)) ranks"
    using load_rows [OF assms(1)] assms(2) by (auto simp: ranks_def)
  have "length (filter (\<lambda>r. decile r = d) rows) = length (filter (\<lambda>x. x = d) (map decile rows))"
    by (simp add: filter_map comp_def)
  also have "\<dots> = length (filter (\<lambda>r. int (decile_of_rank (length df) r) = d) ranks)"
    unfolding dec by (simp add: filter_map comp_def)
  also have "\<dots> = card ({r. int (decile_of_rank (length df) r) = d} \<inter> set ranks)"
    unfolding ranks_def by (rule distinct_length_filter [OF distinct_rank_first])
  also have "{r. int (decile_of_rank (length df) r) = d} \<inter> set ranks
      = {r. 1 \<le> r \<and> r \<le> length df \<and> decile_of_rank (length df) r = nat d}"
    unfolding ranks_def set_rank_first using assms(3) by auto
  finally show ?thesis .
qed

subsection \<open>Decile assignment (C1, C2)\<close>

text \<open>
  C1.  A CSV file of at least 10 rows is labelled without error; every label is in 1..10,
  each of the ten decile groups is non-empty, and the sizes of any two groups differ by
  at most one.  The scores are arbitrary: any number of them may be equal.
\<close>

theorem decile_groups_balanced:
  assumes "10 \<le> length df"
  shows "\<exists>rows. load_and_prepare_data df = Inr rows
     \<and> length rows = length df
     \<and> (\<forall>r\<in>set rows. decile r \<in> {1..10})
     \<and> (\<forall>d\<in>{1..10}. 0 < length (filter (\<lambda>r. decile r = d) rows))
     \<and> (\<forall>d\<in>{1..10}. \<forall>d'\<in>{1..10}.
           length (filter (\<lambda>r. decile r = d) rows) \<le> length (filter (\<lambda>r. decile r = d') rows) + 1)"
proof -
  have n2: "2 \<le> length df" using assms by simp
  from load_rows [OF n2] obtain rows where ret: "load_and_prepare_data df = Inr rows"
    and len: "length rows = length df"
    and dec: "map decile rows = map (\<lambda>r. int (decile_of_rank (length df) r)) (rank_first (map csv_uplift_score df))"
    by blast
  have range: "\<forall>r\<in>set rows. decile r \<in> {1..10}"
  proof
    fix r assume "r \<in> set rows"
    then have "decile r \<in> set (map decile rows)" by simp
    then obtain k where k: "k \<in> set (rank_first (map csv_uplift_score df))"
      "decile r = int (decile_of_rank (length df) k)" unfolding dec by auto
    from k(1) have "1 \<le> k" "k \<le> length df" unfolding set_rank_first by auto
    from decile_of_rank_range [OF n2 this] show "decile r \<in> {1..10}" unfolding k(2) by simp
  qed
  have size: "length (filter (\<lambda>r. decile r = d) rows) =
     card {r. 1 \<le> r \<and> r \<le> length df \<and> decile_of_rank (length df) r = nat d}" if "1 \<le> d" for d
    using group_length [OF n2 ret that] .
  have pos: "\<forall>d\<in>{1..10}. 0 < length (filter (\<lambda>r. decile r = d) rows)"
  proof
    fix d :: int assume d: "d \<in> {1..10}"
    then have "1 \<le> nat d" "nat d \<le> 10" by auto
    from group_card_pos [OF assms this] show "0 < length (filter (\<lambda>r. decile r = d) rows)"
      using size [of d] d by simp
  qed
  have spread: "\<forall>d\<in>{1..10}. \<forall>d'\<in>{1..10}.
           length (filter (\<lambda>r. decile r = d) rows) \<le> length (filter (\<lambda>r. decile r = d') rows) + 1"
  proof (intro ballI)
    fix d d' :: int assume d: "d \<in> {1..10}" and d': "d' \<in> {1..10}"
    have "1 \<le> nat d" "nat d \<le> 10" "1 \<le> nat d'" "nat d' \<le> 10" using d d' by auto
    from group_card_bounds(2) [OF n2 this(1,2)] group_card_bounds(1) [OF n2 this(3,4)]
    show "length (filter (\<lambda>r. decile r = d) rows) \<le> length (filter (\<lambda>r. decile r = d') rows) + 1"
      using size [of d] size [of d'] d d' by simp
  qed
  from ret len range pos spread show ?thesis by blast
qed

theorem decile_groups_balanced_witness:
  "10 \<le> length tied_csv
   \<and> (\<exists>rows. load_and_prepare_data tied_csv = Inr rows
        \<and> map decile rows = [1, 2, 3, 4, 5, 6, 7, 8, 9, 10, 10, 1]
        \<and> (\<forall>d\<in>{1..10}. 0 < length (filter (\<lambda>r. decile r = d) rows))
        \<and> (\<forall>d\<in>{1..10}. \<forall>d'\<in>{1..10}.
              length (filter (\<lambda>r. decile r = d) rows) \<le> length (filter (\<lambda>r. decile r = d') rows) + 1))"
proof -
  have h: "10 \<le> length tied_csv" by (simp add: tied_csv_def)
  have e: "map_sum id (map decile) (load_and_prepare_data tied_csv)
      = Inr [1, 2, 3, 4, 5, 6, 7, 8, 9, 10, 10, 1]"
    by code_simp
  from decile_groups_balanced [OF h] obtain rows where r: "load_and_prepare_data tied_csv = Inr rows"
    "\<forall>d\<in>{1..10}. 0 < length (filter (\<lambda>r. decile r = d) rows)"
    "\<forall>d\<in>{1..10}. \<forall>d'\<in>{1..10}.
        length (filter (\<lambda>r. decile r = d) rows) \<le> length (filter (\<lambda>r. decile r = d') rows) + 1"
    by (elim exE conjE) (rule that, assumption+)
  have m: "map decile rows = [1, 2, 3, 4, 5, 6, 7, 8, 9, 10, 10, 1]" using e unfolding r(1) by simp
  have "load_and_prepare_data tied_csv = Inr rows
        \<and> map decile rows = [1, 2, 3, 4, 5, 6, 7, 8, 9, 10, 10, 1]
        \<and> (\<forall>d\<in>{1..10}. 0 < length (filter (\<lambda>r. decile r = d) rows))
        \<and> (\<forall>d\<in>{1..10}. \<forall>d'\<in>{1..10}.
              length (filter (\<lambda>r. decile r = d) rows) \<le> length (filter (\<lambda>r. decile r = d') rows) + 1)"
    using r m by (intro conjI)
  then have "\<exists>rows. load_and_prepare_data tied_csv = Inr rows
        \<and> map decile rows = [1, 2, 3, 4, 5, 6, 7, 8, 9, 10, 10, 1]
        \<and> (\<forall>d\<in>{1..10}. 0 < length (filter (\<lambda>r. decile r = d) rows))
        \<and> (\<forall>d\<in>{1..10}. \<forall>d'\<in>{1..10}.
              length (filter (\<lambda>r. decile r = d) rows) \<le> length (filter (\<lambda>r. decile r = d') rows) + 1)"
    by (rule exI)
  with h show ?thesis by (rule conjI)
qed

text \<open>
  C2, as stated, fails: the code has no check of the number of records and no
  InsufficientDataError.  Five records are labelled without error (deciles 8, 1, 5, 3
  and 10).
\<close>

theorem too_few_records_counterexample:
  "load_and_prepare_data five_rows_csv =
     Inr [\<lparr>uplift_score = 3/10, treatment = 1, y_true = 1, decile = 8\<rparr>,
          \<lparr>uplift_score = 1/10, treatment = 0, y_true = 0, decile = 1\<rparr>,
          \<lparr>uplift_score = 2/10, treatment = 1, y_true = 0, decile = 5\<rparr>,
          \<lparr>uplift_score = 1/10, treatment = 0, y_true = 1, decile = 3\<rparr>,
          \<lparr>uplift_score = 5/10, treatment = 1, y_true = 1, decile = 10\<rparr>]"
  by code_simp

text \<open>
  C2, amended.  With fewer than 10 records: fewer than 2 records fail with the ValueError
  of qcut (the bin edges are not unique); 2 to 9 records are labelled without error, every
  label in 1..10, and some decile group is empty.
\<close>

theorem too_few_records:
  assumes "length df < 10"
  shows "(length df < 2 \<longrightarrow> load_and_prepare_data df = Inl ValueError)
     \<and> (2 \<le> length df \<longrightarrow>
          (\<exists>rows. load_and_prepare_data df = Inr rows \<and> length rows = length df
             \<and> (\<forall>r\<in>set rows. decile r \<in> {1..10})
             \<and> (\<exists>d\<in>{1..10}. filter (\<lambda>r. decile r = d) rows = [])))"
proof (intro conjI impI)
  assume "length df < 2"
  then have "qcut (map real (rank_first (map csv_uplift_score df))) 10 = Inl ValueError"
    by (intro qcut_too_few) simp
  then show "load_and_prepare_data df = Inl ValueError"
    by (simp add: load_and_prepare_data_def)
next
  assume n2: "2 \<le> length df"
  from load_rows [OF n2] obtain rows where ret: "load_and_prepare_data df = Inr rows"
    and len: "length rows = length df"
    and dec: "map decile rows = map (\<lambda>r. int (decile_of_rank (length df) r)) (rank_first (map csv_uplift_score df))"
    by blast
  have range: "\<forall>r\<in>set rows. decile r \<in> {1..10}"
  proof
    fix r assume "r \<in> set rows"
    then have "decile r \<in> set (map decile rows)" by simp
    then obtain k where k: "k \<in> set (rank_first (map csv_uplift_score df))"
      "decile r = int (decile_of_rank (length df) k)" unfolding dec by auto
    from k(1) have "1 \<le> k" "k \<le> length df" unfolding set_rank_first by auto
    from decile_of_rank_range [OF n2 this] show "decile r \<in> {1..10}" unfolding k(2) by simp
  qed
  have empty: "\<exists>d\<in>{1..10}. filter (\<lambda>r. decile r = d) rows = []"
  proof (rule ccontr)
    assume "\<not> (\<exists>d\<in>{1..10}. filter (\<lambda>r. decile r = d) rows = [])"
    then have "\<forall>d\<in>{1..10}. \<exists>r\<in>set rows. decile r = d"
      by (auto simp: filter_empty_conv)
    then have "{1..10} \<subseteq> decile ` set rows" by auto
    then have "card {1..10::int} \<le> card (decile ` set rows)" by (intro card_mono) auto
    also have "\<dots> \<le> card (set rows)" by (rule card_image_le) simp
    also have "\<dots> \<le> length rows" by (rule card_length)
    finally show False using len assms by simp
  qed
  from ret len range empty
  show "\<exists>rows. load_and_prepare_data df = Inr rows \<and> length rows = length df
             \<and> (\<forall>r\<in>set rows. decile r \<in> {1..10})
             \<and> (\<exists>d\<in>{1..10}. filter (\<lambda>r. decile r = d) rows = [])" by blast
qed

theorem too_few_records_witness:
  "length five_rows_csv < 10 \<and> 2 \<le> length five_rows_csv
   \<and> (\<exists>rows. load_and_prepare_data five_rows_csv = Inr rows \<and> length rows = 5
         \<and> (\<exists>d\<in>{1..10}. filter (\<lambda>r. decile r = d) rows = []))
   \<and> length [mk_csv (1 / 2) 1 1] < 2
   \<and> load_and_prepare_data [mk_csv (1 / 2) 1 1] = Inl ValueError"
proof -
  have h: "length five_rows_csv < 10" "2 \<le> length five_rows_csv" "length five_rows_csv = 5"
    by (simp_all add: five_rows_csv_def)
  have g: "length [mk_csv (1 / 2) 1 1] < 10" "length [mk_csv (1 / 2) 1 1] < 2" by simp_all
  from too_few_records [OF h(1)] h(2) obtain rows where
    "load_and_prepare_data five_rows_csv = Inr rows" "length rows = length five_rows_csv"
    "\<exists>d\<in>{1..10}. filter (\<lambda>r. decile r = d) rows = []"
    by blast
  moreover have "load_and_prepare_data [mk_csv (1 / 2) 1 1] = Inl ValueError"
    using too_few_records [OF g(1)] g(2) by blast
  ultimately show ?thesis using h g(2) by auto
qed

subsection \<open>Helper lemmas on the portfolio estimate\<close>

lemma mean_Num: "ys \<noteq> [] \<Longrightarrow> mean ys = Num (of_int (sum_list ys) / of_nat (length ys))"
  by (simp add: mean_def)

lemma incr_conv_Num:
  fixes targeted :: "row list" and n_target :: int
  defines "treated \<equiv> filter (\<lambda>r. treatment r = 1) targeted"
    and "control \<equiv> filter (\<lambda>r. treatment r = 0) targeted"
  shows "\<exists>v. (if int (length treated) > 0 \<and> int (length control) > 0
          then fmul (fsub (mean (map y_true treated)) (mean (map y_true control))) (Num (of_int n_target))
          else Num 0) = Num v"
proof (cases "int (length treated) > 0 \<and> int (length control) > 0")
  case True
  then have "map y_true treated \<noteq> []" "map y_true control \<noteq> []" by auto
  then show ?thesis using True by (simp add: mean_Num)
next
  case False
  then show ?thesis by auto
qed

lemma portfolio_finite:
  assumes pool: "filter (\<lambda>r. decile r \<in> set sel) df \<noteq> []"
    and prod: "py_mul (int (length (filter (\<lambda>r. decile r \<in> set sel) df))) t = Inr (Num x)"
  shows "\<exists>r ic. calculate_portfolio_profit df sel t c p = Inr r
     \<and> pool_size r = int (length (filter (\<lambda>r. decile r \<in> set sel) df))
     \<and> emails_sent r = (if (if 0 \<le> x then \<lfloor>x\<rfloor> else \<lceil>x\<rceil>) = 0 then 1
                         else (if 0 \<le> x then \<lfloor>x\<rfloor> else \<lceil>x\<rceil>))
     \<and> incremental_conversions r = Num ic
     \<and> revenue r = Num (ic * p)
     \<and> cost r = Num (of_int (emails_sent r) * c)
     \<and> profit r = Num (ic * p - of_int (emails_sent r) * c)"
proof -
  define spool where "spool = sort_values_desc (filter (\<lambda>r. decile r \<in> set sel) df)"
  define n where "n = (if (if 0 \<le> x then \<lfloor>x\<rfloor> else \<lceil>x\<rceil>) = 0 then 1
                         else (if 0 \<le> x then \<lfloor>x\<rfloor> else \<lceil>x\<rceil>))"
  obtain ic where ic: "(if int (length (filter (\<lambda>r. treatment r = 1) (head n spool))) > 0
        \<and> int (length (filter (\<lambda>r. treatment r = 0) (head n spool))) > 0
          then fmul (fsub (mean (map y_true (filter (\<lambda>r. treatment r = 1) (head n spool))))
                 (mean (map y_true (filter (\<lambda>r. treatment r = 0) (head n spool))))) (Num (of_int n))
          else Num 0) = Num ic"
    using incr_conv_Num by blast
  define r where "r = \<lparr>profit = Num (ic * p - of_int n * c), revenue = Num (ic * p),
      cost = Num (of_int n * c), incremental_conversions = Num ic, emails_sent = n,
      pool_size = int (length (filter (\<lambda>r. decile r \<in> set sel) df))\<rparr>"
  have "calculate_portfolio_profit df sel t c p = Inr r"
    using pool ic
    unfolding calculate_portfolio_profit_def Let_def prod spool_def [symmetric] r_def
    by (simp add: n_def [symmetric] del: length_greater_0_conv of_nat_0_less_iff) auto
  then show ?thesis unfolding n_def [symmetric] by (intro exI [of _ r] exI [of _ ic]) (simp add: r_def)
qed

lemma portfolio_error:
  assumes pool: "filter (\<lambda>r. decile r \<in> set sel) df \<noteq> []"
  shows "py_mul (int (length (filter (\<lambda>r. decile r \<in> set sel) df))) t = Inl e
           \<Longrightarrow> calculate_portfolio_profit df sel t c p = Inl e"
    and "py_mul (int (length (filter (\<lambda>r. decile r \<in> set sel) df))) t = Inr NaN
           \<Longrightarrow> calculate_portfolio_profit df sel t c p = Inl ValueError"
    and "py_mul (int (length (filter (\<lambda>r. decile r \<in> set sel) df))) t = Inr PInf
           \<Longrightarrow> calculate_portfolio_profit df sel t c p = Inl OverflowError"
    and "py_mul (int (length (filter (\<lambda>r. decile r \<in> set sel) df))) t = Inr NInf
           \<Longrightarrow> calculate_portfolio_profit df sel t c p = Inl OverflowError"
  using pool by (simp_all add: calculate_portfolio_profit_def Let_def)

lemma pool_size_bound:
  assumes "length df < 2 ^ 53"
  shows "0 \<le> int (length (filter P df))" and "int (length (filter P df)) < 2 ^ 53"
proof -
  show "0 \<le> int (length (filter P df))" by simp
  have "length (filter P df) \<le> length df" by simp
  then have "length (filter P df) < 2 ^ 53" using assms by linarith
  then show "int (length (filter P df)) < 2 ^ 53"
    by (metis of_nat_less_numeral_power_cancel_iff)
qed

lemma pool_size_wide:
  assumes "length df < 2 ^ 63"
  shows "int (length (filter P df)) < 2 ^ 63"
proof -
  have "length (filter P df) \<le> length df" by simp
  then have "length (filter P df) < 2 ^ 63" using assms by linarith
  then show ?thesis by (metis of_nat_less_numeral_power_cancel_iff)
qed

lemma portfolio_fraction:
  assumes "length df < 2 ^ 63" "0 \<le> f" "f \<le> 1"
  shows "\<exists>r v. calculate_portfolio_profit df sel (Num f) c p = Inr r \<and> profit r = Num v"
proof (cases "filter (\<lambda>r. decile r \<in> set sel) df = []")
  case True
  then show ?thesis by (simp add: calculate_portfolio_profit_def)
next
  case False
  have "0 \<le> int (length (filter (\<lambda>r. decile r \<in> set sel) df))" by simp
  from py_mul_fraction_wide [OF this pool_size_wide [OF assms(1)] assms(2,3)]
  obtain x where "py_mul (int (length (filter (\<lambda>r. decile r \<in> set sel) df))) (Num f) = Inr (Num x)"
    by blast
  from portfolio_finite [OF False this, of c p] show ?thesis by blast
qed

lemma to_float_fraction:
  assumes "0 \<le> q" "q \<le> 1"
  shows "\<exists>f. to_float q = Num f \<and> 0 \<le> f \<and> f \<le> 1"
proof -
  have lo: "0 \<le> binary64 q" using assms(1) by (rule binary64_nonneg)
  have hi: "binary64 q \<le> of_int 1" using assms by (intro binary64_le_int) simp_all
  have "\<bar>binary64 q\<bar> \<le> 1" using lo hi by simp
  also have "(1::real) < 2 ^ 1024" by simp
  finally have "to_float q = Num (binary64 q)" by (rule to_float_Num)
  then show ?thesis using lo hi by simp
qed

lemma portfolio_grid:
  assumes "length df < 2 ^ 63" "0 \<le> q" "q \<le> 100"
  shows "\<exists>r v. calculate_portfolio_profit df sel (to_float (of_int q / 100)) c p = Inr r \<and> profit r = Num v"
proof -
  have "0 \<le> real_of_int q / 100" "real_of_int q / 100 \<le> 1" using assms(2,3) by simp_all
  from to_float_fraction [OF this] obtain f where "to_float (of_int q / 100) = Num f" "0 \<le> f" "f \<le> 1"
    by blast
  then show ?thesis using portfolio_fraction [OF assms(1), of f sel c p] by simp
qed

lemma loop_result:
  assumes "length df < 2 ^ 63" "\<forall>q\<in>set ps. 0 \<le> q \<and> q \<le> 100"
  shows "profit_curve_loop df sel c p ps pcts profs =
     Inr (pcts @ ps,
          profs @ map (\<lambda>q. profit (projr (calculate_portfolio_profit df sel (to_float (of_int q / 100)) c p))) ps)"
  using assms(2)
proof (induction ps arbitrary: pcts profs)
  case Nil
  show ?case by simp
next
  case (Cons q ps)
  then have q: "0 \<le> q" "q \<le> 100" and ps: "\<forall>q\<in>set ps. 0 \<le> q \<and> q \<le> 100" by simp_all
  from portfolio_grid [OF assms(1) q] obtain r where
    r: "calculate_portfolio_profit df sel (to_float (of_int q / 100)) c p = Inr r" by blast
  show ?case
    by (subst profit_curve_loop.simps) (simp add: Let_def r Cons.IH [OF ps])
qed

lemma beats_Num: "beats (Num a) (Num b) = (b < a)"
  by (simp add: beats_def)

lemma argmax_from_Num:
  "(argmax_from (map Num ys) k bi (Num b) = bi \<and> (\<forall>y\<in>set ys. y \<le> b)) \<or>
   (\<exists>j<length ys. argmax_from (map Num ys) k bi (Num b) = k + j \<and> b < ys ! j \<and>
        (\<forall>y\<in>set ys. y \<le> ys ! j) \<and> (\<forall>j'<j. ys ! j' < ys ! j))"
proof (induction ys arbitrary: k bi b)
  case Nil
  show ?case by simp
next
  case (Cons y ys)
  show ?case
  proof (cases "b < y")
    case True
    from Cons.IH [of "Suc k" k y]
    show ?thesis
    proof
      assume h: "argmax_from (map Num ys) (Suc k) k (Num y) = k \<and> (\<forall>z\<in>set ys. z \<le> y)"
      have "0 < length (y # ys) \<and> argmax_from (map Num (y # ys)) k bi (Num b) = k + 0 \<and> b < (y # ys) ! 0 \<and>
        (\<forall>z\<in>set (y # ys). z \<le> (y # ys) ! 0) \<and> (\<forall>j'<0. (y # ys) ! j' < (y # ys) ! 0)"
        using h True by (simp add: beats_Num)
      then show ?thesis by blast
    next
      assume "\<exists>j<length ys. argmax_from (map Num ys) (Suc k) k (Num y) = Suc k + j \<and> y < ys ! j \<and>
        (\<forall>z\<in>set ys. z \<le> ys ! j) \<and> (\<forall>j'<j. ys ! j' < ys ! j)"
      then obtain j where j: "j < length ys" "argmax_from (map Num ys) (Suc k) k (Num y) = Suc k + j"
        "y < ys ! j" "\<forall>z\<in>set ys. z \<le> ys ! j" "\<forall>j'<j. ys ! j' < ys ! j" by blast
      have "Suc j < length (y # ys) \<and> argmax_from (map Num (y # ys)) k bi (Num b) = k + Suc j \<and> b < (y # ys) ! Suc j \<and>
        (\<forall>z\<in>set (y # ys). z \<le> (y # ys) ! Suc j) \<and> (\<forall>j'<Suc j. (y # ys) ! j' < (y # ys) ! Suc j)"
        using j True by (auto simp: less_Suc_eq_0_disj beats_Num)
      then show ?thesis by blast
    qed
  next
    case False
    from Cons.IH [of "Suc k" bi b]
    show ?thesis
    proof
      assume h: "argmax_from (map Num ys) (Suc k) bi (Num b) = bi \<and> (\<forall>z\<in>set ys. z \<le> b)"
      then show ?thesis using False by (simp add: beats_Num)
    next
      assume "\<exists>j<length ys. argmax_from (map Num ys) (Suc k) bi (Num b) = Suc k + j \<and> b < ys ! j \<and>
        (\<forall>z\<in>set ys. z \<le> ys ! j) \<and> (\<forall>j'<j. ys ! j' < ys ! j)"
      then obtain j where j: "j < length ys" "argmax_from (map Num ys) (Suc k) bi (Num b) = Suc k + j"
        "b < ys ! j" "\<forall>z\<in>set ys. z \<le> ys ! j" "\<forall>j'<j. ys ! j' < ys ! j" by blast
      have "Suc j < length (y # ys) \<and> argmax_from (map Num (y # ys)) k bi (Num b) = k + Suc j \<and> b < (y # ys) ! Suc j \<and>
        (\<forall>z\<in>set (y # ys). z \<le> (y # ys) ! Suc j) \<and> (\<forall>j'<Suc j. (y # ys) ! j' < (y # ys) ! Suc j)"
        using j False by (auto simp: less_Suc_eq_0_disj beats_Num)
      then show ?thesis by blast
    qed
  qed
qed

lemma argmax_Num:
  assumes "ys \<noteq> []"
  shows "\<exists>i<length ys. argmax (map Num ys) = Inr i \<and> (\<forall>j<length ys. ys ! j \<le> ys ! i) \<and>
           (\<forall>j<i. ys ! j < ys ! i)"
proof -
  obtain y ys' where ys: "ys = y # ys'" using assms by (cases ys) auto
  from argmax_from_Num [of ys' 1 0 y]
  show ?thesis
  proof
    assume h: "argmax_from (map Num ys') 1 0 (Num y) = 0 \<and> (\<forall>z\<in>set ys'. z \<le> y)"
    have "0 < length ys \<and> argmax (map Num ys) = Inr 0 \<and> (\<forall>j<length ys. ys ! j \<le> ys ! 0) \<and>
           (\<forall>j<0. ys ! j < ys ! 0)"
      using h by (auto simp: ys argmax_def nth_Cons split: nat.splits)
    then show ?thesis by blast
  next
    assume "\<exists>j<length ys'. argmax_from (map Num ys') 1 0 (Num y) = 1 + j \<and> y < ys' ! j \<and>
        (\<forall>z\<in>set ys'. z \<le> ys' ! j) \<and> (\<forall>j'<j. ys' ! j' < ys' ! j)"
    then obtain j where j: "j < length ys'" "argmax_from (map Num ys') 1 0 (Num y) = 1 + j"
      "y < ys' ! j" "\<forall>z\<in>set ys'. z \<le> ys' ! j" "\<forall>j'<j. ys' ! j' < ys' ! j" by blast
    have "Suc j < length ys \<and> argmax (map Num ys) = Inr (Suc j) \<and> (\<forall>j'<length ys. ys ! j' \<le> ys ! Suc j) \<and>
           (\<forall>j'<Suc j. ys ! j' < ys ! Suc j)"
      using j by (auto simp: ys argmax_def nth_Cons split: nat.splits)
    then show ?thesis by blast
  qed
qed

lemma map_Num_ex: "(\<And>x. x \<in> set xs \<Longrightarrow> \<exists>v. g x = Num v) \<Longrightarrow> \<exists>vs. map g xs = map Num vs"
proof (induction xs)
  case Nil
  show ?case by simp
next
  case (Cons x xs)
  then obtain vs where "map g xs = map Num vs" by auto
  moreover obtain v where "g x = Num v" using Cons.prems by auto
  ultimately have "map g (x # xs) = map Num (v # vs)" by simp
  then show ?case by blast
qed

lemma grid_range: "\<forall>q\<in>set (py_range 5 105 5). 0 \<le> q \<and> q \<le> 100"
  unfolding py_range_curve by simp

lemma profit_curve_returns:
  assumes "length df < 2 ^ 63"
  shows "\<exists>c. calculate_profit_curve df sel email_cost ppc n = Inr c"
proof -
  obtain x xs where "py_range 5 105 5 = x # xs" unfolding py_range_curve by blast
  then obtain y ys where "profit_curve_loop df sel email_cost ppc (py_range 5 105 5) [] [] = Inr (x # xs, y # ys)"
    using loop_result [OF assms grid_range, of sel email_cost ppc "[]" "[]"] by simp
  then show ?thesis by (simp add: calculate_profit_curve_def argmax_def)
qed

subsection \<open>Evaluation on the sample frame\<close>

lemma portfolio_three_quarters:
  "calculate_portfolio_profit sample_df all_deciles (Num (3/4)) (1/10) 25 =
     Inr \<lparr>profit = Num (4333 / 60), revenue = Num (875 / 12),
        cost = Num (7 / 10), incremental_conversions = Num (35 / 12),
        emails_sent = 7, pool_size = 10\<rparr>"
  by (simp add: eval_defs py_mul_ten)

lemma portfolio_all:
  "calculate_portfolio_profit sample_df all_deciles (Num 1) (1 / 10) 25 =
     Inr \<lparr>profit = Num 99, revenue = Num 100, cost = Num 1, incremental_conversions = Num 4,
          emails_sent = 10, pool_size = 10\<rparr>"
  by (simp add: eval_defs py_mul_ten)

subsection \<open>Spray and pray against the portfolio estimate (C3)\<close>

text \<open>
  C3 fails on a frame with an empty arm.  On ten rows that were all treated,
  \<open>calculate_spray_and_pray\<close> takes the mean of the empty control column: profit, revenue
  and incremental conversions are NaN.  \<open>calculate_portfolio_profit\<close> on all ten deciles at
  fraction 1 guards the empty arm and returns incremental conversions 0 and profit \<open>- cost\<close>.
\<close>

theorem spray_and_pray_empty_arm:
  "calculate_spray_and_pray treated_only_df (1/10) 25 =
     Inr \<lparr>profit = NaN, revenue = NaN, cost = Num 1, incremental_conversions = NaN, emails_sent = 10\<rparr>
   \<and> calculate_portfolio_profit treated_only_df all_deciles (Num 1) (1/10) 25 =
     Inr \<lparr>profit = Num (- 1), revenue = Num 0, cost = Num 1, incremental_conversions = Num 0,
          emails_sent = 10, pool_size = 10\<rparr>"
  by (simp add: eval_defs py_mul_ten calculate_spray_and_pray_def treated_only_df_def)

text \<open>
  The empty arm is the only source of the difference: on a frame whose deciles are all in
  1..10 and whose two arms are both non-empty, the two calls return the same five values.
  (The frame has fewer than \<open>2 ^ 53\<close> rows, so that the row count is a float and the
  product with 1.0 is the count itself.)
\<close>

lemma sum_list_insort_key:
  fixes g :: "'a \<Rightarrow> int"
  shows "sum_list (map g (insort_key f x xs)) = g x + sum_list (map g xs)"
  by (induction xs) simp_all

lemma sum_list_sort_key:
  fixes g :: "'a \<Rightarrow> int"
  shows "sum_list (map g (sort_key f xs)) = sum_list (map g xs)"
  by (induction xs) (simp_all add: sum_list_insort_key)

lemma mean_sorted_arm:
  "mean (map y_true (filter P (sort_values_desc pool))) = mean (map y_true (filter P pool))"
proof -
  have "filter P (sort_values_desc pool) = sort_key (\<lambda>r. - uplift_score r) (filter P pool)"
    unfolding sort_values_desc_def by (rule filter_sort)
  moreover have "(sort_key (\<lambda>r. - uplift_score r) (filter P pool) = []) = (filter P pool = [])"
    using length_sort [of "\<lambda>r. - uplift_score r" "filter P pool"] by (metis length_0_conv)
  ultimately show ?thesis by (simp add: mean_def sum_list_sort_key)
qed

lemma length_sorted_arm:
  "length (filter P (sort_values_desc pool)) = length (filter P pool)"
proof -
  have "filter P (sort_values_desc pool) = sort_key (\<lambda>r. - uplift_score r) (filter P pool)"
    unfolding sort_values_desc_def by (rule filter_sort)
  then show ?thesis by simp
qed

lemma spray_matches_portfolio:
  assumes labelled: "\<forall>r\<in>set df. decile r \<in> set all_deciles"
    and treated: "filter (\<lambda>r. treatment r = 1) df \<noteq> []"
    and control: "filter (\<lambda>r. treatment r = 0) df \<noteq> []"
    and size: "length df < 2 ^ 53"
  shows "\<exists>p s. calculate_portfolio_profit df all_deciles (Num 1) email_cost profit_per_conversion = Inr p
     \<and> calculate_spray_and_pray df email_cost profit_per_conversion = Inr s
     \<and> profit p = profit s \<and> revenue p = revenue s \<and> cost p = cost s
     \<and> incremental_conversions p = incremental_conversions s \<and> emails_sent p = emails_sent s"
proof -
  have pool: "filter (\<lambda>r. decile r \<in> set all_deciles) df = df"
    using labelled by (simp add: filter_id_conv)
  have ne: "df \<noteq> []" using treated by auto
  have n: "\<bar>int (length df)\<bar> < 2 ^ 53"
    using size by (metis abs_of_nat of_nat_less_numeral_power_cancel_iff)
  have "binary64 (of_int (int (length df))) = of_int (int (length df))"
    by (rule binary64_of_int [OF n])
  moreover have "real (length df) < 2 ^ 1024"
  proof -
    have "real (length df) < 2 ^ 53" using size by (metis of_nat_less_numeral_power_cancel_iff)
    also have "(2::real) ^ 53 < 2 ^ 1024" by simp
    finally show ?thesis .
  qed
  ultimately have prod: "py_mul (int (length df)) (Num 1) = Inr (Num (real (length df)))"
    using py_mul_Num [OF n, of 1] by (simp add: to_float_def)
  have len: "length (sort_values_desc df) = length df"
    by (simp add: sort_values_desc_def)
  have hd: "head (int (length df)) (sort_values_desc df) = sort_values_desc df"
    by (simp add: head_def len)
  have lt: "filter (\<lambda>r. treatment r = 1) (sort_values_desc df) \<noteq> []"
    and lc: "filter (\<lambda>r. treatment r = 0) (sort_values_desc df) \<noteq> []"
    using treated control length_sorted_arm [of _ df] by (metis length_0_conv)+
  show ?thesis
    using ne lt lc treated control
    by (simp add: calculate_portfolio_profit_def calculate_spray_and_pray_def Let_def pool
        prod hd mean_sorted_arm)
qed

subsection \<open>The targeted count (C4)\<close>

text \<open>
  C4, as stated, fails: the count is \<open>int(pool_size * target_pct)\<close>, which truncates.
  On a pool of 10 at fraction 3/4 (a float; the product 7.5 is a float too) the code
  targets 7 records; rounding 7.5 gives 8.
\<close>

theorem targeted_count_counterexample:
  "calculate_portfolio_profit sample_df all_deciles (Num (3/4)) (1/10) 25 =
     Inr \<lparr>profit = Num (4333 / 60), revenue = Num (875 / 12),
        cost = Num (7 / 10), incremental_conversions = Num (35 / 12),
        emails_sent = 7, pool_size = 10\<rparr>
   \<and> spec_targeted_count 10 (3/4) = 8"
  by (simp add: portfolio_three_quarters spec_targeted_count_def round_def)

text \<open>
  C4, amended.  For a non-empty pool (of a frame of fewer than \<open>2 ^ 53\<close> rows, whose
  counts are floats) and a fraction \<open>f\<close> in (0, 1], the call returns, and \<open>emails_sent\<close> is
  the float product \<open>pool_size * f\<close>, that is the exact product rounded to binary64, then
  truncated by \<open>int\<close>; or 1 when that is 0.  It is between 1 and the pool size.

  The rounding of the product comes before the truncation and can change the count: at
  the float 0.7, which is below 7/10, the exact product with 10 is below 7, the float
  product is 7.0, and the code targets 7 records.
\<close>

theorem targeted_count_truncates:
  assumes "filter (\<lambda>r. decile r \<in> set selected_deciles) df \<noteq> []"
    and "length df < 2 ^ 53"
    and "0 < f" and "f \<le> 1"
  shows "\<exists>r. calculate_portfolio_profit df selected_deciles (Num f) email_cost profit_per_conversion = Inr r
     \<and> pool_size r = int (length (filter (\<lambda>r. decile r \<in> set selected_deciles) df))
     \<and> emails_sent r = (if \<lfloor>binary64 (of_int (pool_size r) * f)\<rfloor> = 0 then 1
                         else \<lfloor>binary64 (of_int (pool_size r) * f)\<rfloor>)
     \<and> 1 \<le> emails_sent r \<and> emails_sent r \<le> pool_size r"
proof -
  define n :: int where "n = int (length (filter (\<lambda>r. decile r \<in> set selected_deciles) df))"
  define x where "x = binary64 (of_int n * f)"
  have n1: "1 \<le> n" using assms(1) by (simp add: n_def Suc_le_eq)
  have n: "0 \<le> n" "n < 2 ^ 53" unfolding n_def using pool_size_bound [OF assms(2)] by simp_all
  have f: "0 \<le> f" using assms(3) by simp
  from py_mul_fraction [OF n f assms(4)]
  have prod: "py_mul n (Num f) = Inr (Num x)" and x0: "0 \<le> x" and xn: "x \<le> of_int n"
    unfolding x_def by simp_all
  from portfolio_finite [OF assms(1) prod [unfolded n_def], of email_cost profit_per_conversion]
  obtain r where r: "calculate_portfolio_profit df selected_deciles (Num f) email_cost profit_per_conversion = Inr r"
    "pool_size r = n"
    "emails_sent r = (if (if 0 \<le> x then \<lfloor>x\<rfloor> else \<lceil>x\<rceil>) = 0 then 1
                         else (if 0 \<le> x then \<lfloor>x\<rfloor> else \<lceil>x\<rceil>))"
    unfolding n_def by blast
  have e: "emails_sent r = (if \<lfloor>x\<rfloor> = 0 then 1 else \<lfloor>x\<rfloor>)" using r(3) x0 by simp
  have fl0: "0 \<le> \<lfloor>x\<rfloor>" using x0 by simp
  have fln: "\<lfloor>x\<rfloor> \<le> n" using xn by (simp add: floor_le_iff)
  have "1 \<le> emails_sent r \<and> emails_sent r \<le> n"
  proof (cases "\<lfloor>x\<rfloor> = 0")
    case True
    then show ?thesis using e n1 by simp
  next
    case False
    then have "1 \<le> \<lfloor>x\<rfloor>" using fl0 by linarith
    then show ?thesis using e False fln by simp
  qed
  then show ?thesis using r(1,2) e unfolding x_def n_def [symmetric]
    by (intro exI [of _ r]) simp
qed

theorem targeted_count_truncates_witness:
  "filter (\<lambda>r. decile r \<in> set all_deciles) sample_df \<noteq> [] \<and> length sample_df < 2 ^ 53
   \<and> 0 < seven_tenths \<and> seven_tenths \<le> 1
   \<and> (\<exists>r. calculate_portfolio_profit sample_df all_deciles (Num seven_tenths) (1 / 10) 25 = Inr r
         \<and> pool_size r = 10 \<and> emails_sent r = 7)
   \<and> \<lfloor>10 * seven_tenths\<rfloor> = 6"
proof -
  have h: "filter (\<lambda>r. decile r \<in> set all_deciles) sample_df \<noteq> []"
    by (simp add: sample_df_def all_deciles_def mk_row_def)
  have l: "int (length (filter (\<lambda>r. decile r \<in> set all_deciles) sample_df)) = 10"
    by (simp add: sample_df_def all_deciles_def mk_row_def)
  have s: "length sample_df < 2 ^ 53" by (simp add: sample_df_def)
  have f: "0 < seven_tenths" "seven_tenths \<le> 1" by (simp_all add: seven_tenths_def)
  have b: "binary64 (10 * seven_tenths) = 7"
    using binary64_ten_times by (simp add: seven_tenths_def)
  from targeted_count_truncates [OF h s f, of "1 / 10" 25]
  obtain r where r: "calculate_portfolio_profit sample_df all_deciles (Num seven_tenths) (1 / 10) 25 = Inr r"
    "pool_size r = int (length (filter (\<lambda>r. decile r \<in> set all_deciles) sample_df))"
    "emails_sent r = (if \<lfloor>binary64 (of_int (pool_size r) * seven_tenths)\<rfloor> = 0 then 1
                         else \<lfloor>binary64 (of_int (pool_size r) * seven_tenths)\<rfloor>)"
    by auto
  have p: "pool_size r = 10" using r(2) l by simp
  have "emails_sent r = 7" using r(3) unfolding p by (simp add: b)
  then have "\<exists>r. calculate_portfolio_profit sample_df all_deciles (Num seven_tenths) (1 / 10) 25 = Inr r
         \<and> pool_size r = 10 \<and> emails_sent r = 7" using r(1) p by blast
  moreover have "\<lfloor>10 * seven_tenths\<rfloor> = 6" by (simp add: seven_tenths_def)
  ultimately show ?thesis using h s f by simp
qed

subsection \<open>Parameter validation (C5)\<close>

text \<open>
  C5, as stated, fails: neither function checks its parameters, and no ValidationError
  exists in the code.  At fraction 2, email cost \<open>- 1\<close> and profit per conversion 0 the
  estimate raises nothing and returns a result (20 emails on a pool of 10, cost \<open>- 20\<close>).
\<close>

theorem no_validation_counterexample:
  "calculate_portfolio_profit sample_df all_deciles (Num 2) (- 1) 0 =
     Inr \<lparr>profit = Num 20, revenue = Num 0, cost = Num (- 20),
        incremental_conversions = Num 8, emails_sent = 20, pool_size = 10\<rparr>"
  by (simp add: eval_defs py_mul_ten)

text \<open>
  C5, amended.  Neither function validates its parameters; what is raised comes from
  \<open>int(pool_size * target_pct)\<close> alone, and depends on neither the range of the fraction
  nor the sign of the two costs.  On a frame of fewer than \<open>2 ^ 53\<close> rows, for every
  email cost and profit per conversion:
  \<^item> \<open>calculate_portfolio_profit\<close> returns a result whenever the float product
    \<open>pool_size * target_pct\<close> is finite, whether the fraction is in (0, 1] or not;
  \<^item> \<open>calculate_profit_curve\<close> returns a result;
  \<^item> on a non-empty pool, \<open>calculate_portfolio_profit\<close> raises ValueError when the
    fraction is NaN, and OverflowError when the fraction is infinite or the float product
    overflows.

  On an empty pool the estimate returns the zero result before the product is computed
  (C8).
\<close>

theorem no_validation:
  assumes "length df < 2 ^ 53"
  shows "(\<bar>binary64 (of_int (int (length (filter (\<lambda>r. decile r \<in> set selected_deciles) df))) * f)\<bar> < 2 ^ 1024
            \<longrightarrow> \<not> isl (calculate_portfolio_profit df selected_deciles (Num f) email_cost profit_per_conversion))
     \<and> \<not> isl (calculate_profit_curve df selected_deciles email_cost profit_per_conversion n_points)
     \<and> (filter (\<lambda>r. decile r \<in> set selected_deciles) df \<noteq> [] \<longrightarrow>
          calculate_portfolio_profit df selected_deciles NaN email_cost profit_per_conversion = Inl ValueError
        \<and> calculate_portfolio_profit df selected_deciles PInf email_cost profit_per_conversion = Inl OverflowError
        \<and> calculate_portfolio_profit df selected_deciles NInf email_cost profit_per_conversion = Inl OverflowError
        \<and> (2 ^ 1024 \<le> \<bar>binary64 (of_int (int (length (filter (\<lambda>r. decile r \<in> set selected_deciles) df))) * f)\<bar>
              \<longrightarrow> calculate_portfolio_profit df selected_deciles (Num f) email_cost profit_per_conversion
                    = Inl OverflowError))"
proof -
  define n where "n = int (length (filter (\<lambda>r. decile r \<in> set selected_deciles) df))"
  have n: "0 \<le> n" "n < 2 ^ 53" unfolding n_def using pool_size_bound [OF assms] by simp_all
  then have an: "\<bar>n\<bar> < 2 ^ 53" by simp
  have prod: "py_mul n (Num f) = Inr (to_float (of_int n * f))" by (rule py_mul_Num [OF an])
  have finite: "\<not> isl (calculate_portfolio_profit df selected_deciles (Num f) email_cost profit_per_conversion)"
    if "\<bar>binary64 (of_int n * f)\<bar> < 2 ^ 1024"
  proof (cases "filter (\<lambda>r. decile r \<in> set selected_deciles) df = []")
    case True
    then show ?thesis by (simp add: calculate_portfolio_profit_def)
  next
    case False
    have "py_mul n (Num f) = Inr (Num (binary64 (of_int n * f)))"
      unfolding prod using that by (simp add: to_float_Num)
    from portfolio_finite [OF False this [unfolded n_def], of email_cost profit_per_conversion]
    show ?thesis by auto
  qed
  have curve: "\<not> isl (calculate_profit_curve df selected_deciles email_cost profit_per_conversion n_points)"
  proof -
    have "length df < 2 ^ 63" using assms by simp
    from profit_curve_returns [OF this, of selected_deciles email_cost profit_per_conversion n_points]
    show ?thesis by auto
  qed
  have errors: "calculate_portfolio_profit df selected_deciles NaN email_cost profit_per_conversion = Inl ValueError
        \<and> calculate_portfolio_profit df selected_deciles PInf email_cost profit_per_conversion = Inl OverflowError
        \<and> calculate_portfolio_profit df selected_deciles NInf email_cost profit_per_conversion = Inl OverflowError
        \<and> (2 ^ 1024 \<le> \<bar>binary64 (of_int n * f)\<bar>
              \<longrightarrow> calculate_portfolio_profit df selected_deciles (Num f) email_cost profit_per_conversion
                    = Inl OverflowError)"
    if pool: "filter (\<lambda>r. decile r \<in> set selected_deciles) df \<noteq> []"
  proof -
    have pos: "0 < n" using pool by (simp add: n_def)
    have "py_mul n NaN = Inr NaN" by (rule py_mul_NaN [OF an])
    then have 1: "calculate_portfolio_profit df selected_deciles NaN email_cost profit_per_conversion = Inl ValueError"
      unfolding n_def by (rule portfolio_error(2) [OF pool])
    have "py_mul n PInf = Inr PInf" by (rule py_mul_Inf(1) [OF pos n(2)])
    then have 2: "calculate_portfolio_profit df selected_deciles PInf email_cost profit_per_conversion = Inl OverflowError"
      unfolding n_def by (rule portfolio_error(3) [OF pool])
    have "py_mul n NInf = Inr NInf" by (rule py_mul_Inf(2) [OF pos n(2)])
    then have 3: "calculate_portfolio_profit df selected_deciles NInf email_cost profit_per_conversion = Inl OverflowError"
      unfolding n_def by (rule portfolio_error(4) [OF pool])
    have 4: "calculate_portfolio_profit df selected_deciles (Num f) email_cost profit_per_conversion
                    = Inl OverflowError" if big: "2 ^ 1024 \<le> \<bar>binary64 (of_int n * f)\<bar>"
    proof (cases "0 \<le> binary64 (of_int n * f)")
      case True
      then have "py_mul n (Num f) = Inr PInf" unfolding prod using big by (simp add: to_float_def)
      then show ?thesis unfolding n_def by (rule portfolio_error(3) [OF pool])
    next
      case False
      then have "py_mul n (Num f) = Inr NInf" unfolding prod using big by (simp add: to_float_def)
      then show ?thesis unfolding n_def by (rule portfolio_error(4) [OF pool])
    qed
    show ?thesis using 1 2 3 4 by simp
  qed
  show ?thesis using finite curve errors unfolding n_def by simp
qed

theorem no_validation_witness:
  "length sample_df < 2 ^ 53
   \<and> \<bar>binary64 (of_int (int (length (filter (\<lambda>r. decile r \<in> set all_deciles) sample_df))) * 2)\<bar> < 2 ^ 1024
   \<and> \<not> isl (calculate_portfolio_profit sample_df all_deciles (Num 2) (- 1) 0)
   \<and> \<not> isl (calculate_profit_curve sample_df all_deciles (- 1) 0 20)
   \<and> filter (\<lambda>r. decile r \<in> set all_deciles) sample_df \<noteq> []
   \<and> calculate_portfolio_profit sample_df all_deciles NaN (- 1) 0 = Inl ValueError
   \<and> calculate_portfolio_profit sample_df all_deciles PInf (- 1) 0 = Inl OverflowError
   \<and> 2 ^ 1024 \<le> \<bar>binary64 (of_int (int (length (filter (\<lambda>r. decile r \<in> set all_deciles) sample_df))) * 2 ^ 1023)\<bar>
   \<and> calculate_portfolio_profit sample_df all_deciles (Num (2 ^ 1023)) (- 1) 0 = Inl OverflowError"
proof -
  have s: "length sample_df < 2 ^ 53" by (simp add: sample_df_def)
  have l: "int (length (filter (\<lambda>r. decile r \<in> set all_deciles) sample_df)) = 10"
    by (simp add: sample_df_def all_deciles_def mk_row_def)
  have h: "filter (\<lambda>r. decile r \<in> set all_deciles) sample_df \<noteq> []"
    by (simp add: sample_df_def all_deciles_def mk_row_def)
  have "binary64 (of_int 20) = of_int 20" by (rule binary64_of_int) simp
  then have b: "\<bar>binary64 (of_int (int (length (filter (\<lambda>r. decile r \<in> set all_deciles) sample_df))) * 2)\<bar> < 2 ^ 1024"
    unfolding l by simp
  have "binary64 (of_int 10 * 2 powi 1023) = of_int 10 * 2 powi 1023"
    by (rule binary64_exact) simp_all
  then have c: "2 ^ 1024 \<le> \<bar>binary64 (of_int (int (length (filter (\<lambda>r. decile r \<in> set all_deciles) sample_df))) * 2 ^ 1023)\<bar>"
    unfolding l by simp
  show ?thesis
    using no_validation [OF s, of all_deciles 2 "- 1" 0 20]
      no_validation [OF s, of all_deciles "2 ^ 1023" "- 1" 0 20] s b c h by simp
qed

subsection \<open>The profit curve (C6, C10)\<close>

text \<open>
  C6.  On a frame of fewer than \<open>2 ^ 63\<close> rows (every frame: a length in Python is below
  \<open>2 ^ 63\<close>, and so the conversion of the pool size to a float does not overflow),
  \<open>calculate_profit_curve\<close> returns; its percentages are 5, 10, ..., 100 in this order; the
  k-th profit is the profit \<open>calculate_portfolio_profit\<close> returns at the float of the k-th
  percentage divided by 100; all 20 profits are numbers (none is NaN); and the reported
  optimum is the pair at the first index whose profit is the maximum of the 20.
\<close>

theorem profit_curve_optimum:
  assumes "length df < 2 ^ 63"
  shows "\<exists>r vs i. calculate_profit_curve df selected_deciles email_cost profit_per_conversion n_points = Inr r
     \<and> percentages r = [5, 10, 15, 20, 25, 30, 35, 40, 45, 50, 55, 60, 65, 70, 75, 80, 85, 90, 95, 100]
     \<and> length (profits r) = 20
     \<and> (\<forall>k<20. \<exists>res. calculate_portfolio_profit df selected_deciles
                          (to_float (of_int (percentages r ! k) / 100)) email_cost profit_per_conversion = Inr res
                      \<and> profits r ! k = profit res)
     \<and> profits r = map Num vs
     \<and> i < 20 \<and> optimal_pct r = percentages r ! i \<and> optimal_profit r = profits r ! i
     \<and> (\<forall>j<20. vs ! j \<le> vs ! i) \<and> (\<forall>j<i. vs ! j < vs ! i)"
proof -
  define grid :: "int list" where
    "grid = [5, 10, 15, 20, 25, 30, 35, 40, 45, 50, 55, 60, 65, 70, 75, 80, 85, 90, 95, 100]"
  define g where "g = (\<lambda>q. profit (projr (calculate_portfolio_profit df selected_deciles
                      (to_float (of_int q / 100)) email_cost profit_per_conversion)))"
  have lg: "length grid = 20" by (simp add: grid_def)
  have range: "\<forall>q\<in>set grid. 0 \<le> q \<and> q \<le> 100" by (simp add: grid_def)
  have grid: "py_range 5 105 5 = grid" unfolding grid_def by (rule py_range_curve)
  have loop: "profit_curve_loop df selected_deciles email_cost profit_per_conversion (py_range 5 105 5) [] []
      = Inr (grid, map g grid)"
    using loop_result [OF assms grid_range, of selected_deciles email_cost profit_per_conversion "[]" "[]"]
    unfolding grid g_def by simp
  have gq: "\<exists>res v. calculate_portfolio_profit df selected_deciles
                      (to_float (of_int q / 100)) email_cost profit_per_conversion = Inr res
                \<and> g q = profit res \<and> g q = Num v" if "q \<in> set grid" for q
  proof -
    from range that have "0 \<le> q" "q \<le> 100" by simp_all
    from portfolio_grid [OF assms this] obtain res v where
      "calculate_portfolio_profit df selected_deciles
          (to_float (of_int q / 100)) email_cost profit_per_conversion = Inr res" "profit res = Num v"
      by blast
    then show ?thesis unfolding g_def by simp
  qed
  then have "\<And>q. q \<in> set grid \<Longrightarrow> \<exists>v. g q = Num v" by blast
  then obtain vs where vs: "map g grid = map Num vs"
    using map_Num_ex [of grid g] by blast
  have len: "length vs = 20"
    using arg_cong [OF vs, of length] lg by simp
  then have "vs \<noteq> []" by auto
  from argmax_Num [OF this] obtain i where i: "i < length vs" "argmax (map Num vs) = Inr i"
    "\<forall>j<length vs. vs ! j \<le> vs ! i" "\<forall>j<i. vs ! j < vs ! i" by blast
  define r where "r = \<lparr>percentages = grid, profits = map g grid,
      optimal_pct = grid ! i, optimal_profit = map g grid ! i\<rparr>"
  have sel: "percentages r = grid" "profits r = map g grid"
    "optimal_pct r = percentages r ! i" "optimal_profit r = profits r ! i"
    unfolding r_def by simp_all
  have ret: "calculate_profit_curve df selected_deciles email_cost profit_per_conversion n_points = Inr r"
    unfolding calculate_profit_curve_def loop r_def using i(2) vs by simp
  have each: "\<forall>k<20. \<exists>res. calculate_portfolio_profit df selected_deciles
                          (to_float (of_int (percentages r ! k) / 100)) email_cost profit_per_conversion = Inr res
                      \<and> profits r ! k = profit res"
  proof (intro allI impI)
    fix k :: nat assume k: "k < 20"
    then have "grid ! k \<in> set grid" using lg by simp
    from gq [OF this] obtain res where "calculate_portfolio_profit df selected_deciles
          (to_float (of_int (grid ! k) / 100)) email_cost profit_per_conversion = Inr res"
      "g (grid ! k) = profit res" by blast
    moreover have "map g grid ! k = g (grid ! k)"
      using k lg by simp
    ultimately show "\<exists>res. calculate_portfolio_profit df selected_deciles
                          (to_float (of_int (percentages r ! k) / 100)) email_cost profit_per_conversion = Inr res
                      \<and> profits r ! k = profit res"
      unfolding sel by simp
  qed
  have "calculate_profit_curve df selected_deciles email_cost profit_per_conversion n_points = Inr r
     \<and> percentages r = grid
     \<and> length (profits r) = 20
     \<and> (\<forall>k<20. \<exists>res. calculate_portfolio_profit df selected_deciles
                          (to_float (of_int (percentages r ! k) / 100)) email_cost profit_per_conversion = Inr res
                      \<and> profits r ! k = profit res)
     \<and> profits r = map Num vs
     \<and> i < 20 \<and> optimal_pct r = percentages r ! i \<and> optimal_profit r = profits r ! i
     \<and> (\<forall>j<20. vs ! j \<le> vs ! i) \<and> (\<forall>j<i. vs ! j < vs ! i)"
    using ret each i len sel vs lg by simp
  then show ?thesis unfolding grid_def by blast
qed

theorem profit_curve_optimum_witness:
  "length sample_df < 2 ^ 63
   \<and> (\<exists>r v. calculate_profit_curve sample_df all_deciles (1 / 10) 25 20 = Inr r
     \<and> percentages r = [5, 10, 15, 20, 25, 30, 35, 40, 45, 50, 55, 60, 65, 70, 75, 80, 85, 90, 95, 100]
     \<and> length (profits r) = 20
     \<and> profits r ! 19 = Num 99
     \<and> optimal_profit r = Num v \<and> 99 \<le> v)"
proof -
  have h: "length sample_df < 2 ^ 63" by (simp add: sample_df_def)
  from profit_curve_optimum [OF h, of all_deciles "1 / 10" 25 20]
  obtain r vs i where r: "calculate_profit_curve sample_df all_deciles (1 / 10) 25 20 = Inr r"
    and p: "percentages r = [5, 10, 15, 20, 25, 30, 35, 40, 45, 50, 55, 60, 65, 70, 75, 80, 85, 90, 95, 100]"
    and l: "length (profits r) = 20"
    and e: "\<forall>k<20. \<exists>res. calculate_portfolio_profit sample_df all_deciles
                          (to_float (of_int (percentages r ! k) / 100)) (1 / 10) 25 = Inr res
                      \<and> profits r ! k = profit res"
    and v: "profits r = map Num vs"
    and i: "i < 20" "optimal_profit r = profits r ! i"
    and m: "\<forall>j<20. vs ! j \<le> vs ! i"
    by (elim exE conjE) (rule that, assumption+)
  have q: "percentages r ! 19 = 100" unfolding p by simp
  from e have "\<exists>res. calculate_portfolio_profit sample_df all_deciles
                          (to_float (of_int (percentages r ! 19) / 100)) (1 / 10) 25 = Inr res
                      \<and> profits r ! 19 = profit res" by simp
  then have last: "profits r ! 19 = Num 99"
    unfolding q to_float_one portfolio_all by auto
  have lv: "length vs = 20" using arg_cong [OF v, of length] l by simp
  have "vs ! 19 = 99" using last lv unfolding v by simp
  moreover have "vs ! 19 \<le> vs ! i" using m by simp
  ultimately have b: "99 \<le> vs ! i" by simp
  have o: "optimal_profit r = Num (vs ! i)" using i lv unfolding v by simp
  have "calculate_profit_curve sample_df all_deciles (1 / 10) 25 20 = Inr r
     \<and> percentages r = [5, 10, 15, 20, 25, 30, 35, 40, 45, 50, 55, 60, 65, 70, 75, 80, 85, 90, 95, 100]
     \<and> length (profits r) = 20
     \<and> profits r ! 19 = Num 99
     \<and> optimal_profit r = Num (vs ! i) \<and> 99 \<le> vs ! i"
    using r p l last o b by (intro conjI)
  then have "\<exists>r v. calculate_profit_curve sample_df all_deciles (1 / 10) 25 20 = Inr r
     \<and> percentages r = [5, 10, 15, 20, 25, 30, 35, 40, 45, 50, 55, 60, 65, 70, 75, 80, 85, 90, 95, 100]
     \<and> length (profits r) = 20
     \<and> profits r ! 19 = Num 99
     \<and> optimal_profit r = Num v \<and> 99 \<le> v"
    by (intro exI)
  with h show ?thesis by (rule conjI)
qed

text \<open>
  C10.  \<open>n_points\<close> is not used: two calls that differ only in it return the same.
\<close>

theorem n_points_ignored: "calculate_profit_curve df selected_deciles email_cost profit_per_conversion n1 =
   calculate_profit_curve df selected_deciles email_cost profit_per_conversion n2"
  by (simp add: calculate_profit_curve_def)

theorem n_points_ignored_witness:
  "calculate_profit_curve sample_df all_deciles (1 / 10) 25 20 =
   calculate_profit_curve sample_df all_deciles (1 / 10) 25 7"
  by (rule n_points_ignored)

subsection \<open>Accounting identities (C7)\<close>

text \<open>
  C7 fails on a frame with an empty arm.  On ten rows that were all treated,
  \<open>calculate_spray_and_pray\<close> returns revenue NaN and profit NaN, with cost 1.  A NaN is
  equal to nothing, itself included: by the comparison of floats (\<open>feq\<close>, Python's
  \<^verbatim>\<open>==\<close>), profit is not revenue - cost and revenue is not incremental conversions *
  profit per conversion.  The identity of cost holds.  The NaN is that of the empty
  control column, which \<open>calculate_spray_and_pray\<close> does not guard (see C3).
\<close>

theorem accounting_identities_empty_arm:
  "calculate_spray_and_pray treated_only_df (1/10) 25 =
     Inr \<lparr>profit = NaN, revenue = NaN, cost = Num 1, incremental_conversions = NaN, emails_sent = 10\<rparr>
   \<and> \<not> feq NaN (fsub NaN (Num 1))
   \<and> \<not> feq NaN (fmul NaN (Num 25))
   \<and> feq (Num 1) (fmul (Num (of_int 10)) (Num (1/10)))"
  by (simp add: eval_defs calculate_spray_and_pray_def treated_only_df_def)

text \<open>
  The empty arm is the only source of the failure.  The three identities hold, by the
  comparison of floats, of every result of \<open>calculate_portfolio_profit\<close>, of every result
  of \<open>calculate_spray_and_pray\<close> on a frame whose two arms are both non-empty, and of
  every row that \<open>calculate_decile_profits\<close> makes of the rows of \<open>calculate_decile_stats\<close>.
\<close>

lemma feq_Num: "feq (Num a) (Num b) = (a = b)"
  by simp

lemma portfolio_identities:
  assumes "calculate_portfolio_profit df selected_deciles target_pct email_cost profit_per_conversion = Inr r"
  shows "feq (profit r) (fsub (revenue r) (cost r))"
    and "feq (revenue r) (fmul (incremental_conversions r) (Num profit_per_conversion))"
    and "feq (cost r) (fmul (Num (of_int (emails_sent r))) (Num email_cost))"
proof -
  have "feq (profit r) (fsub (revenue r) (cost r))
      \<and> feq (revenue r) (fmul (incremental_conversions r) (Num profit_per_conversion))
      \<and> feq (cost r) (fmul (Num (of_int (emails_sent r))) (Num email_cost))"
  proof (cases "filter (\<lambda>r. decile r \<in> set selected_deciles) df = []")
    case True
    then show ?thesis using assms by (auto simp: calculate_portfolio_profit_def)
  next
    case False
    define n where "n = int (length (filter (\<lambda>r. decile r \<in> set selected_deciles) df))"
    have "\<exists>x. py_mul n target_pct = Inr (Num x)"
    proof (cases "py_mul n target_pct")
      case (Inl e)
      then show ?thesis using portfolio_error(1) [OF False, of target_pct e] assms by (simp add: n_def)
    next
      case (Inr y)
      then show ?thesis
        using portfolio_error(2-4) [OF False, of target_pct] assms
        by (cases y) (simp_all add: n_def)
    qed
    then obtain x where "py_mul n target_pct = Inr (Num x)" by blast
    from portfolio_finite [OF False this [unfolded n_def], of email_cost profit_per_conversion] assms
    show ?thesis by auto
  qed
  then show "feq (profit r) (fsub (revenue r) (cost r))"
    and "feq (revenue r) (fmul (incremental_conversions r) (Num profit_per_conversion))"
    and "feq (cost r) (fmul (Num (of_int (emails_sent r))) (Num email_cost))" by simp_all
qed

lemma spray_identities:
  assumes "calculate_spray_and_pray df email_cost profit_per_conversion = Inr s"
    and "filter (\<lambda>r. treatment r = 1) df \<noteq> []" and "filter (\<lambda>r. treatment r = 0) df \<noteq> []"
  shows "feq (profit s) (fsub (revenue s) (cost s))"
    and "feq (revenue s) (fmul (incremental_conversions s) (Num profit_per_conversion))"
    and "feq (cost s) (fmul (Num (of_int (emails_sent s))) (Num email_cost))"
  using assms by (auto simp: calculate_spray_and_pray_def Let_def mean_def)

lemma decile_profit_identities:
  assumes "calculate_decile_stats df = Inr stats"
    and "calculate_decile_profits stats email_cost profit_per_conversion = Inr rows"
    and "d \<in> set rows"
  shows "feq (decile_profit d) (fsub (decile_revenue d) (decile_cost d))"
    and "feq (decile_revenue d) (fmul (incremental_conv d) (Num profit_per_conversion))"
    and "feq (decile_cost d) (fmul (Num (of_int (n_customers d))) (Num email_cost))"
proof -
  from assms obtain k where d: "d = decile_profit_of email_cost profit_per_conversion (decile_stats_of df k)"
    by (auto simp: calculate_decile_stats_def calculate_decile_profits_def)
  have "\<exists>u. uplift_rate (decile_stats_of df k) = Num u"
    by (auto simp: decile_stats_of_def Let_def mean_def split: prod.splits)
  then obtain u where u: "uplift_rate (decile_stats_of df k) = Num u" by blast
  show "feq (decile_profit d) (fsub (decile_revenue d) (decile_cost d))"
    and "feq (decile_revenue d) (fmul (incremental_conv d) (Num profit_per_conversion))"
    and "feq (decile_cost d) (fmul (Num (of_int (n_customers d))) (Num email_cost))"
    unfolding d by (simp_all add: decile_profit_of_def Let_def decile_stats_row.extend_def u)
qed

subsection \<open>The empty pool (C8)\<close>

text \<open>
  C8.  When no row has its decile in the selected set, \<open>calculate_portfolio_profit\<close>
  returns, without raising, the result whose six fields are all 0.
\<close>

theorem empty_pool_zero_result:
  assumes "filter (\<lambda>r. decile r \<in> set selected_deciles) df = []"
  shows "calculate_portfolio_profit df selected_deciles target_pct email_cost profit_per_conversion =
     Inr \<lparr>profit = Num 0, revenue = Num 0, cost = Num 0, incremental_conversions = Num 0,
          emails_sent = 0, pool_size = 0\<rparr>"
  using assms by (simp add: calculate_portfolio_profit_def)

theorem empty_pool_zero_result_witness: "filter (\<lambda>r. decile r \<in> set [11, 12]) sample_df = [] \<and> calculate_portfolio_profit sample_df [11, 12] (Num (1/2)) (1/10) 25 =
     Inr \<lparr>profit = Num 0, revenue = Num 0, cost = Num 0, incremental_conversions = Num 0,
          emails_sent = 0, pool_size = 0\<rparr>"
proof -
  have h: "filter (\<lambda>r. decile r \<in> set [11, 12]) sample_df = []"
    by (simp add: sample_df_def mk_row_def)
  show ?thesis using h empty_pool_zero_result [OF h] by simp
qed

subsection \<open>Per-decile statistics (C9)\<close>

lemma decile_stats_of_fields:
  "stats_decile (decile_stats_of df d) = d"
  "n_customers (decile_stats_of df d) = int (length (filter (\<lambda>r. decile r = d) df))"
  "n_treated (decile_stats_of df d) = int (length (filter (\<lambda>r. treatment r = 1) (filter (\<lambda>r. decile r = d) df)))"
  "n_control (decile_stats_of df d) = int (length (filter (\<lambda>r. treatment r = 0) (filter (\<lambda>r. decile r = d) df)))"
  by (simp_all add: decile_stats_of_def Let_def split: prod.splits)

lemma decile_stats_of_fallback:
  assumes "n_treated (decile_stats_of df d) = 0 \<or> n_control (decile_stats_of df d) = 0"
  shows "treatment_rate (decile_stats_of df d) = Num 0"
    and "control_rate (decile_stats_of df d) = Num 0"
    and "observed_lift (decile_stats_of df d) = Num 0"
    and "uplift_rate (decile_stats_of df d) = Num 0"
  using assms unfolding decile_stats_of_fields
  by (auto simp add: decile_stats_of_def Let_def split: prod.splits)

text \<open>
  C9.  \<open>calculate_decile_stats\<close> returns exactly one row for each of the deciles 1, ..., 10,
  in this order, whatever the frame (a decile without members has a row of counts 0); the
  counts of a row are those of its decile; and when the treated arm or the control arm
  of a decile is empty, its two conversion rates and its lift are 0.
\<close>

theorem decile_stats_rows:
  "\<exists>rows. calculate_decile_stats df = Inr rows
     \<and> map stats_decile rows = [1, 2, 3, 4, 5, 6, 7, 8, 9, 10]
     \<and> (\<forall>s\<in>set rows.
           n_customers s = int (length (filter (\<lambda>r. decile r = stats_decile s) df))
         \<and> n_treated s = int (length (filter (\<lambda>r. decile r = stats_decile s \<and> treatment r = 1) df))
         \<and> n_control s = int (length (filter (\<lambda>r. decile r = stats_decile s \<and> treatment r = 0) df))
         \<and> (n_treated s = 0 \<or> n_control s = 0 \<longrightarrow>
              treatment_rate s = Num 0 \<and> control_rate s = Num 0 \<and> observed_lift s = Num 0
              \<and> uplift_rate s = Num 0))"
proof -
  define ds :: "int list" where "ds = [1, 2, 3, 4, 5, 6, 7, 8, 9, 10]"
  define rows where "rows = map (decile_stats_of df) ds"
  have ret: "calculate_decile_stats df = Inr rows"
    by (simp add: calculate_decile_stats_def py_range_deciles rows_def ds_def)
  have "map stats_decile rows = map (\<lambda>d. d) ds"
    unfolding rows_def map_map by (rule map_cong) (simp_all add: decile_stats_of_fields)
  then have labels: "map stats_decile rows = ds" by simp
  have each: "\<forall>s\<in>set rows.
           n_customers s = int (length (filter (\<lambda>r. decile r = stats_decile s) df))
         \<and> n_treated s = int (length (filter (\<lambda>r. decile r = stats_decile s \<and> treatment r = 1) df))
         \<and> n_control s = int (length (filter (\<lambda>r. decile r = stats_decile s \<and> treatment r = 0) df))
         \<and> (n_treated s = 0 \<or> n_control s = 0 \<longrightarrow>
              treatment_rate s = Num 0 \<and> control_rate s = Num 0 \<and> observed_lift s = Num 0
              \<and> uplift_rate s = Num 0)"
  proof
    fix s assume "s \<in> set rows"
    then obtain d where s: "s = decile_stats_of df d" unfolding rows_def by auto
    have f1: "filter (\<lambda>r. treatment r = 1) (filter (\<lambda>r. decile r = d) df)
        = filter (\<lambda>r. decile r = d \<and> treatment r = 1) df"
      by (simp add: conj_commute)
    have f0: "filter (\<lambda>r. treatment r = 0) (filter (\<lambda>r. decile r = d) df)
        = filter (\<lambda>r. decile r = d \<and> treatment r = 0) df"
      by (simp add: conj_commute)
    show "n_customers s = int (length (filter (\<lambda>r. decile r = stats_decile s) df))
         \<and> n_treated s = int (length (filter (\<lambda>r. decile r = stats_decile s \<and> treatment r = 1) df))
         \<and> n_control s = int (length (filter (\<lambda>r. decile r = stats_decile s \<and> treatment r = 0) df))
         \<and> (n_treated s = 0 \<or> n_control s = 0 \<longrightarrow>
              treatment_rate s = Num 0 \<and> control_rate s = Num 0 \<and> observed_lift s = Num 0
              \<and> uplift_rate s = Num 0)"
      unfolding s using decile_stats_of_fallback [of df d]
      by (simp add: decile_stats_of_fields f1 f0)
  qed
  show ?thesis
    by (rule exI [of _ rows], intro conjI) (use ret labels each in \<open>simp_all only: ds_def\<close>)
qed

theorem decile_stats_rows_witness:
  "\<exists>rows. calculate_decile_stats sample_df = Inr rows
     \<and> map stats_decile rows = [1, 2, 3, 4, 5, 6, 7, 8, 9, 10]
     \<and> n_treated (rows ! 0) = 1 \<and> n_control (rows ! 0) = 0
     \<and> treatment_rate (rows ! 0) = Num 0 \<and> control_rate (rows ! 0) = Num 0
     \<and> observed_lift (rows ! 0) = Num 0"
proof -
  from decile_stats_rows [of sample_df] obtain rows where
    r: "calculate_decile_stats sample_df = Inr rows"
    and m: "map stats_decile rows = [1, 2, 3, 4, 5, 6, 7, 8, 9, 10]"
    and a: "\<forall>s\<in>set rows.
           n_customers s = int (length (filter (\<lambda>r. decile r = stats_decile s) sample_df))
         \<and> n_treated s = int (length (filter (\<lambda>r. decile r = stats_decile s \<and> treatment r = 1) sample_df))
         \<and> n_control s = int (length (filter (\<lambda>r. decile r = stats_decile s \<and> treatment r = 0) sample_df))
         \<and> (n_treated s = 0 \<or> n_control s = 0 \<longrightarrow>
              treatment_rate s = Num 0 \<and> control_rate s = Num 0 \<and> observed_lift s = Num 0
              \<and> uplift_rate s = Num 0)"
    by (elim exE conjE) (rule that, assumption+)
  have len: "length rows = 10" using arg_cong [OF m, of length] by simp
  then have mem: "rows ! 0 \<in> set rows" by (intro nth_mem) simp
  have "map stats_decile rows ! 0 = stats_decile (rows ! 0)" using len by (intro nth_map) simp
  then have d: "stats_decile (rows ! 0) = 1" unfolding m by simp
  have t: "n_treated (rows ! 0) = 1" and c: "n_control (rows ! 0) = 0"
    using bspec [OF a mem] unfolding d by (simp_all add: sample_df_def mk_row_def)
  have "treatment_rate (rows ! 0) = Num 0 \<and> control_rate (rows ! 0) = Num 0
      \<and> observed_lift (rows ! 0) = Num 0"
    using bspec [OF a mem] c by simp
  then show ?thesis using r m t c by (intro conjI exI [of _ rows]; simp)
qed

end
